theory Spec2Isabelle
  imports Main "HOL-Library.Word"
begin

section \<open>Data model of the decoy subsystem (internal/decoy/decoy.go)\<close>

text \<open>
  Go's \<^verbatim>\<open>time.Duration\<close> is an \<^verbatim>\<open>int64\<close>: a 64-bit word whose sum wraps around and
  whose order is the signed one (\<open>sint\<close>). \<^verbatim>\<open>uint64\<close> is the same word read unsigned.
  Pointers are addresses into explicit heaps, so that pointer equality
  (\<^verbatim>\<open>nCtxList[0] != ctx\<close>, \<^verbatim>\<open>v == ctx\<close>) is equality of addresses.
\<close>

type_synonym duration = "64 word"
type_synonym uint64 = "64 word"
type_synonym byte = "8 word"
type_synonym ptr = nat

text \<open>The run-time panics of the code: the explicit \<^verbatim>\<open>panic(...)\<close> calls and Go's own.\<close>

datatype panic =
    BadTypeAssertion    \<comment> \<open>\<^verbatim>\<open>x.([]*surbCtx)\<close> on an interface that holds another type\<close>
  | IndexOutOfRange     \<comment> \<open>\<^verbatim>\<open>s[0]\<close> on an empty slice\<close>
  | NilDeref            \<comment> \<open>field access through a nil pointer\<close>
  | SURBMissing         \<comment> \<open>"BUG: SURB missing from node ETA list"\<close>
  | SURBMismatch        \<comment> \<open>"BUG: SURB mismatch in node ETA list"\<close>
  | NonSURBReply        \<comment> \<open>"BUG: OnPacket called with non-SURB Reply"\<close>
  | ProviderDecoy       \<comment> \<open>"BUG: Provider generated decoy traffic not supported yet"\<close>

text \<open>\<^verbatim>\<open>type surbCtx struct { id uint64; eta time.Duration; sprpKey []byte; etaNode *avl.Node }\<close>\<close>

record surbCtx =
  id' :: uint64
  eta :: duration
  sprpKey :: "byte list"
  etaNode :: "ptr option"

text \<open>
  The dynamic value of \<^verbatim>\<open>avl.Node.Value\<close> (an \<^verbatim>\<open>interface{}\<close>): the code stores a
  \<^verbatim>\<open>[]*surbCtx\<close> there, and at one place a \<^verbatim>\<open>*surbCtx\<close> (\<open>None\<close> is the nil pointer).
\<close>

datatype iface = CtxList "ptr list" | CtxPtr "ptr option"

text \<open>
  What the connector is handed by \<^verbatim>\<open>dispatchPacket\<close>: the raw Sphinx packet, the
  identifier of the first hop and the dispatch time.
\<close>

record outPacket =
  raw :: "byte list"
  nextNodeHop :: "byte list"
  dispatchAt :: duration

text \<open>
  The calls the subsystem makes to the Token Lifecycle Manager, to the packet primitives
  and to the connector are recorded in the order in which they are made:
  \<^verbatim>\<open>d.sendDecoyPacket(docCache)\<close>, \<^verbatim>\<open>d.storeSURBCtx(ctx)\<close> (with the address of the context),
  \<^verbatim>\<open>sphinx.NewPacket(rand.Reader, fwdPath, payload)\<close> (with the payload),
  \<^verbatim>\<open>d.glue.Connector().DispatchPacket(pkt)\<close>, \<^verbatim>\<open>d.loadAndDeleteSURBCtx(id)\<close> and
  \<^verbatim>\<open>d.sweepSURBCtxs()\<close>.
\<close>

datatype call =
    CallSendDecoy
  | CallStore ptr
  | CallNewPacket "byte list"
  | CallDispatch outPacket
  | CallLoadAndDelete uint64
  | CallSweep

text \<open>
  The fields of \<^verbatim>\<open>type decoy struct\<close> that the code reads and writes, with the two heaps
  its pointers point into, the three Prometheus counters (package variables) and the
  record of calls.  Package \<^verbatim>\<open>avl\<close> is a dependency of the repository: the
  tree \<^verbatim>\<open>surbETAs\<close> is represented by its in-order sequence of node addresses, which is what
  \<^verbatim>\<open>Iterator(avl.Forward)\<close> walks; \<open>nodeHeap\<close> holds the \<^verbatim>\<open>Value\<close> of every node ever
  allocated (\<^verbatim>\<open>Remove\<close> unlinks a node and leaves its \<^verbatim>\<open>Value\<close> intact).
  \<open>nodeTop\<close> and \<open>ctxTop\<close> are the next free addresses of the two heaps.
  The counter vector \<^verbatim>\<open>pkiDocs\<close> is labelled by the decimal rendering of the epoch, which
  determines the epoch, so it is indexed by the epoch.
\<close>

record decoy =
  recipient :: "byte list"
  surbETAs :: "ptr list"
  surbStore :: "uint64 \<rightharpoonup> ptr"
  surbIDBase :: uint64
  nodeHeap :: "ptr \<rightharpoonup> iface"
  ctxHeap :: "ptr \<rightharpoonup> surbCtx"
  nodeTop :: ptr
  ctxTop :: ptr
  packetsDropped :: nat
  ignoredPKIDocs :: nat
  pkiDocs :: "uint64 \<Rightarrow> nat"
  calls :: "call list"

definition bindE :: "panic + 'a \<Rightarrow> ('a \<Rightarrow> panic + 'b) \<Rightarrow> panic + 'b" where
  "bindE m f = (case m of Inl e \<Rightarrow> Inl e | Inr x \<Rightarrow> f x)"

text \<open>Reading through a pointer; an address that holds nothing is the nil pointer.\<close>

definition derefCtx :: "decoy \<Rightarrow> ptr \<Rightarrow> panic + surbCtx" where
  "derefCtx d p = (case ctxHeap d p of None \<Rightarrow> Inl NilDeref | Some c \<Rightarrow> Inr c)"

definition nodeValue :: "decoy \<Rightarrow> ptr \<Rightarrow> panic + iface" where
  "nodeValue d n = (case nodeHeap d n of None \<Rightarrow> Inl NilDeref | Some v \<Rightarrow> Inr v)"

text \<open>The type assertion \<^verbatim>\<open>v.([]*surbCtx)\<close>.\<close>

definition asCtxList :: "iface \<Rightarrow> panic + ptr list" where
  "asCtxList v = (case v of CtxList ps \<Rightarrow> Inr ps | CtxPtr _ \<Rightarrow> Inl BadTypeAssertion)"

text \<open>\<^verbatim>\<open>s[0].eta\<close> for a \<^verbatim>\<open>s []*surbCtx\<close>.\<close>

definition firstETA :: "decoy \<Rightarrow> ptr list \<Rightarrow> panic + duration" where
  "firstETA d ps =
     (case ps of [] \<Rightarrow> Inl IndexOutOfRange
      | p # _ \<Rightarrow> bindE (derefCtx d p) (\<lambda>c. Inr (eta c)))"

text \<open>
  The comparison function handed to \<^verbatim>\<open>avl.New\<close> (lines 495-506): both values are asserted
  to be \<^verbatim>\<open>[]*surbCtx\<close> and compared by the \<^verbatim>\<open>eta\<close> of their first element.
\<close>

definition cmpETA :: "decoy \<Rightarrow> iface \<Rightarrow> iface \<Rightarrow> panic + int" where
  "cmpETA d a b =
     bindE (asCtxList a) (\<lambda>surbCtxsA.
     bindE (asCtxList b) (\<lambda>surbCtxsB.
     bindE (firstETA d surbCtxsA) (\<lambda>etaA.
     bindE (firstETA d surbCtxsB) (\<lambda>etaB.
       if etaA <s etaB then Inr (-1)
       else if etaB <s etaA then Inr 1
       else Inr 0))))"

text \<open>
  \<^verbatim>\<open>Tree.Insert(v)\<close> of package \<^verbatim>\<open>avl\<close>: the node whose value compares equal to \<open>v\<close> if
  there is one, else a new node holding \<open>v\<close>, linked at its place in the order.  The
  search is written over the in-order sequence: it yields the nodes before the place,
  the node found (if any) and the nodes after.  The comparison function is the code's
  own, so a node whose value is not a \<^verbatim>\<open>[]*surbCtx\<close> makes the search panic when it is
  compared.  The library compares \<open>v\<close> with the nodes on a path from the root of its
  tree, the model with the nodes in ascending order up to the place; the node returned
  and the resulting order are the same whenever every node holds a group of allocated
  contexts, as in every state that satisfies the invariants stated further down.
\<close>

fun avlSearch :: "decoy \<Rightarrow> iface \<Rightarrow> ptr list \<Rightarrow> ptr list \<Rightarrow> panic + (ptr list \<times> ptr option \<times> ptr list)" where
  "avlSearch d v before [] = Inr (before, None, [])"
| "avlSearch d v before (n # ns) =
     bindE (nodeValue d n) (\<lambda>nv.
     bindE (cmpETA d v nv) (\<lambda>c.
       if c < 0 then Inr (before, None, n # ns)
       else if c > 0 then avlSearch d v (before @ [n]) ns
       else Inr (before, Some n, ns)))"

definition avlInsert :: "decoy \<Rightarrow> iface \<Rightarrow> panic + (ptr \<times> decoy)" where
  "avlInsert d v =
     bindE (avlSearch d v [] (surbETAs d)) (\<lambda>(before, found, after).
       case found of
         Some n \<Rightarrow> Inr (n, d)
       | None \<Rightarrow>
           let n = nodeTop d in
           Inr (n, d\<lparr>surbETAs := before @ n # after,
                      nodeHeap := (nodeHeap d)(n \<mapsto> v),
                      nodeTop := Suc n\<rparr>))"

text \<open>\<^verbatim>\<open>Tree.Remove(node)\<close>: the node leaves the order; its \<^verbatim>\<open>Value\<close> stays as it is.\<close>

definition avlRemove :: "ptr \<Rightarrow> decoy \<Rightarrow> decoy" where
  "avlRemove n d = d\<lparr>surbETAs := removeAll n (surbETAs d)\<rparr>"

section \<open>Token Lifecycle Manager\<close>

text \<open>Assignments through pointers: \<^verbatim>\<open>ctx.etaNode = n\<close> and \<^verbatim>\<open>node.Value = v\<close>.\<close>

definition setEtaNode :: "ptr \<Rightarrow> ptr option \<Rightarrow> decoy \<Rightarrow> panic + decoy" where
  "setEtaNode p n d =
     bindE (derefCtx d p) (\<lambda>c. Inr (d\<lparr>ctxHeap := (ctxHeap d)(p \<mapsto> c\<lparr>etaNode := n\<rparr>)\<rparr>))"

definition setValue :: "ptr \<Rightarrow> iface \<Rightarrow> decoy \<Rightarrow> panic + decoy" where
  "setValue n v d =
     bindE (nodeValue d n) (\<lambda>_. Inr (d\<lparr>nodeHeap := (nodeHeap d)(n \<mapsto> v)\<rparr>))"

text \<open>
  \<^verbatim>\<open>storeSURBCtx(ctx)\<close>, lines 406-419; \<open>p\<close> is the address of \<^verbatim>\<open>ctx\<close>.
  \<^verbatim>\<open>
    ctxList := []*surbCtx{ctx}
    ctx.etaNode = d.surbETAs.Insert(ctxList)
    if nCtxList := ctx.etaNode.Value.([]*surbCtx); nCtxList[0] != ctx {
        ctx.etaNode.Value = append(nCtxList, ctx)
    }
    d.surbStore[ctx.id] = ctx
  \<close>
\<close>

definition storeSURBCtx :: "ptr \<Rightarrow> decoy \<Rightarrow> panic + decoy" where
  "storeSURBCtx p d =
     bindE (avlInsert d (CtxList [p])) (\<lambda>(n, d1).
     bindE (setEtaNode p (Some n) d1) (\<lambda>d2.
     bindE (nodeValue d2 n) (\<lambda>v.
     bindE (asCtxList v) (\<lambda>nCtxList.
     bindE (case nCtxList of [] \<Rightarrow> Inl IndexOutOfRange
            | q # _ \<Rightarrow> if q \<noteq> p then setValue n (CtxList (nCtxList @ [p])) d2 else Inr d2) (\<lambda>d3.
     bindE (derefCtx d3 p) (\<lambda>c.
       Inr (d3\<lparr>surbStore := (surbStore d3)(id' c \<mapsto> p)\<rparr>)))))))"

text \<open>
  \<^verbatim>\<open>loadAndDeleteSURBCtx(id)\<close>, lines 421-453.  The result is the address of the context
  (\<open>None\<close> for the nil return) and the new state.
  \<^verbatim>\<open>
    ctx := d.surbStore[id]
    if ctx == nil { return nil }
    delete(d.surbStore, id)
    nCtxList := ctx.etaNode.Value.([]*surbCtx)
    if l := len(nCtxList); l > 1 {
        for i, v := range nCtxList {
            if v == ctx {
                copy(nCtxList[i:], nCtxList[i+1:])
                nCtxList[l-1] = nil
                ctx.etaNode.Value = nCtxList[l-1]
                ctx.etaNode = nil
                return ctx
            }
        }
        panic("BUG: SURB missing from node ETA list")
    } else if nCtxList[0] != ctx {
        panic("BUG: SURB mismatch in node ETA list")
    }
    d.surbETAs.Remove(ctx.etaNode)
    ctx.etaNode = nil
    return ctx
  \<close>
  The slice elements are pointers, \<open>None\<close> being nil: after the \<^verbatim>\<open>copy\<close> and the
  assignment of nil to the last element, the value stored into \<^verbatim>\<open>Value\<close> is that last
  element \<^verbatim>\<open>nCtxList[l-1]\<close>, a \<^verbatim>\<open>*surbCtx\<close>.
\<close>

fun indexOf :: "'a \<Rightarrow> 'a list \<Rightarrow> nat option" where
  "indexOf x [] = None"
| "indexOf x (y # ys) = (if y = x then Some 0 else map_option Suc (indexOf x ys))"

definition loadAndDeleteSURBCtx :: "uint64 \<Rightarrow> decoy \<Rightarrow> panic + (ptr option \<times> decoy)" where
  "loadAndDeleteSURBCtx i d =
     (case surbStore d i of
        None \<Rightarrow> Inr (None, d)
      | Some p \<Rightarrow>
          let d1 = d\<lparr>surbStore := (surbStore d)(i := None)\<rparr> in
          bindE (derefCtx d1 p) (\<lambda>ctx.
          case etaNode ctx of None \<Rightarrow> Inl NilDeref
          | Some n \<Rightarrow>
              bindE (nodeValue d1 n) (\<lambda>v.
              bindE (asCtxList v) (\<lambda>nCtxList.
                let l = length nCtxList in
                if l > 1 then
                  (case indexOf p nCtxList of
                     Some k \<Rightarrow>
                       let copied = map Some (take k nCtxList @ drop (Suc k) nCtxList)
                                      @ [Some (last nCtxList)];
                           nilled = copied[l - 1 := None]
                       in bindE (setValue n (CtxPtr (nilled ! (l - 1))) d1) (\<lambda>d2.
                          bindE (setEtaNode p None d2) (\<lambda>d3. Inr (Some p, d3)))
                   | None \<Rightarrow> Inl SURBMissing)
                else
                  (case nCtxList of [] \<Rightarrow> Inl IndexOutOfRange
                   | q # _ \<Rightarrow>
                       if q \<noteq> p then Inl SURBMismatch
                       else bindE (setEtaNode p None (avlRemove n d1)) (\<lambda>d3.
                              Inr (Some p, d3)))))))"

text \<open>
  \<^verbatim>\<open>sweepSURBCtxs()\<close>, lines 455-485, with \<open>now\<close> the value of \<^verbatim>\<open>monotime.Now()\<close> and
  \<open>slack\<close> the configured \<^verbatim>\<open>DecoySlack\<close> as a duration.  The result is the new state and
  the counter \<^verbatim>\<open>swept\<close> that the last log line reports.
  \<^verbatim>\<open>
    if d.surbETAs.Len() == 0 { return }
    iter := d.surbETAs.Iterator(avl.Forward)
    for node := iter.First(); node != nil; node = iter.Next() {
        surbCtxs := node.Value.([]*surbCtx)
        if surbCtxs[0].eta+slack > now { break }
        for _, ctx := range surbCtxs {
            delete(d.surbStore, ctx.id)
            swept++
        }
        d.surbETAs.Remove(node)
    }
  \<close>
\<close>

fun sweepGroup :: "ptr list \<Rightarrow> decoy \<Rightarrow> nat \<Rightarrow> panic + (decoy \<times> nat)" where
  "sweepGroup [] d swept = Inr (d, swept)"
| "sweepGroup (p # ps) d swept =
     bindE (derefCtx d p) (\<lambda>ctx.
       sweepGroup ps (d\<lparr>surbStore := (surbStore d)(id' ctx := None)\<rparr>) (Suc swept))"

fun sweepNodes :: "duration \<Rightarrow> duration \<Rightarrow> ptr list \<Rightarrow> decoy \<Rightarrow> nat \<Rightarrow> panic + (decoy \<times> nat)" where
  "sweepNodes now slack [] d swept = Inr (d, swept)"
| "sweepNodes now slack (node # rest) d swept =
     bindE (nodeValue d node) (\<lambda>v.
     bindE (asCtxList v) (\<lambda>surbCtxs.
     bindE (firstETA d surbCtxs) (\<lambda>e.
       if now <s e + slack then Inr (d, swept)
       else bindE (sweepGroup surbCtxs d swept) (\<lambda>(d1, swept1).
              sweepNodes now slack rest (avlRemove node d1) swept1))))"

definition sweepSURBCtxs :: "duration \<Rightarrow> duration \<Rightarrow> decoy \<Rightarrow> panic + (decoy \<times> nat)" where
  "sweepSURBCtxs now slack d =
     (if length (surbETAs d) = 0 then Inr (d, 0)
      else sweepNodes now slack (surbETAs d) d 0)"

text \<open>
  A new context is allocated by the caller (\<^verbatim>\<open>ctx := &surbCtx{id: ..., eta: ..., sprpKey: k}\<close>,
  lines 320-324) with a nil \<^verbatim>\<open>etaNode\<close>.
\<close>

definition newSurbCtx :: "uint64 \<Rightarrow> duration \<Rightarrow> byte list \<Rightarrow> decoy \<Rightarrow> ptr \<times> decoy" where
  "newSurbCtx i e k d =
     (let p = ctxTop d in
      (p, d\<lparr>ctxHeap := (ctxHeap d)(p \<mapsto> \<lparr>id' = i, eta = e, sprpKey = k, etaNode = None\<rparr>),
            ctxTop := Suc p\<rparr>))"

text \<open>The state built by \<^verbatim>\<open>New\<close> (lines 488-516): an empty tree and an empty map.\<close>

definition newDecoy :: "byte list \<Rightarrow> uint64 \<Rightarrow> decoy" where
  "newDecoy r base =
     \<lparr>recipient = r, surbETAs = [], surbStore = Map.empty, surbIDBase = base,
      nodeHeap = Map.empty, ctxHeap = Map.empty, nodeTop = 0, ctxTop = 0,
      packetsDropped = 0, ignoredPKIDocs = 0, pkiDocs = (\<lambda>_. 0), calls = []\<rparr>"

text \<open>Sequences of operations of the manager, stopped by the first panic.\<close>

datatype op = Store uint64 duration "byte list" | TakeById uint64 | Sweep duration duration

fun applyOp :: "op \<Rightarrow> decoy \<Rightarrow> panic + decoy" where
  "applyOp (Store i e k) d = (case newSurbCtx i e k d of (p, d1) \<Rightarrow> storeSURBCtx p d1)"
| "applyOp (TakeById i) d = bindE (loadAndDeleteSURBCtx i d) (\<lambda>(_, d1). Inr d1)"
| "applyOp (Sweep now slack) d = bindE (sweepSURBCtxs now slack d) (\<lambda>(d1, _). Inr d1)"

fun applyOps :: "op list \<Rightarrow> decoy \<Rightarrow> panic + decoy" where
  "applyOps [] d = Inr d"
| "applyOps (x # xs) d = bindE (applyOp x d) (applyOps xs)"

text \<open>
  The contexts reachable by iterating the Expiry Index: the groups of its nodes, in
  order.  A node whose value is not a group of contexts holds none.
\<close>

definition groupOf :: "decoy \<Rightarrow> ptr \<Rightarrow> ptr list" where
  "groupOf d n = (case nodeHeap d n of Some (CtxList ps) \<Rightarrow> ps | _ \<Rightarrow> [])"

definition indexCtxs :: "decoy \<Rightarrow> ptr list" where
  "indexCtxs d = concat (map (groupOf d) (surbETAs d))"

definition idOf :: "decoy \<Rightarrow> ptr \<Rightarrow> uint64 option" where
  "idOf d p = map_option id' (ctxHeap d p)"

definition indexIds :: "decoy \<Rightarrow> uint64 set" where
  "indexIds d = {i. \<exists>p \<in> set (indexCtxs d). idOf d p = Some i}"

definition storeIds :: "decoy \<Rightarrow> uint64 set" where
  "storeIds d = dom (surbStore d)"

section \<open>Packet Builder\<close>

text \<open>
  \<^verbatim>\<open>binary.BigEndian.Uint64(b)\<close> and \<^verbatim>\<open>binary.BigEndian.PutUint64(b, v)\<close> of Go's library:
  the first panics on fewer than 8 bytes, the second writes the 8 bytes of \<open>v\<close>, most
  significant first.
\<close>

definition beUint64 :: "byte list \<Rightarrow> panic + uint64" where
  "beUint64 b =
     (if length b < 8 then Inl IndexOutOfRange
      else Inr (or (ucast (b ! 7)) (or (push_bit 8 (ucast (b ! 6)))
               (or (push_bit 16 (ucast (b ! 5))) (or (push_bit 24 (ucast (b ! 4)))
               (or (push_bit 32 (ucast (b ! 3))) (or (push_bit 40 (ucast (b ! 2)))
               (or (push_bit 48 (ucast (b ! 1))) (push_bit 56 (ucast (b ! 0)))))))))))"

definition putUint64 :: "uint64 \<Rightarrow> byte list" where
  "putUint64 v =
     [ucast (drop_bit 56 v), ucast (drop_bit 48 v), ucast (drop_bit 40 v),
      ucast (drop_bit 32 v), ucast (drop_bit 24 v), ucast (drop_bit 16 v),
      ucast (drop_bit 8 v), ucast v]"

text \<open>
  \<^verbatim>\<open>makeSURBID\<close>, lines 386-392: the 16 bytes are the token base followed by
  \<^verbatim>\<open>d.rng.Uint64()\<close>, here \<open>rnd\<close>.
\<close>

definition makeSURBID :: "decoy \<Rightarrow> uint64 \<Rightarrow> byte list" where
  "makeSURBID d rnd = putUint64 (surbIDBase d) @ putUint64 rnd"

text \<open>
  Constants declared outside the source files at hand, taken as parameters:
  \<^verbatim>\<open>epochtime.TestPeriod\<close> and \<^verbatim>\<open>constants.UserForwardPayloadLength\<close>.
\<close>

record extern =
  testPeriod :: duration
  userForwardPayloadLength :: nat

definition maxAttempts :: nat where
  "maxAttempts = 3"

text \<open>
  What the collaborators answer during one attempt of \<^verbatim>\<open>sendLoopPacket\<close>, in the order
  of the calls: \<^verbatim>\<open>time.Now()\<close> (an instant, in nanoseconds), the two \<^verbatim>\<open>path.New\<close> calls
  (path, arrival time, error), \<^verbatim>\<open>sphinx.NewSURB\<close> (SURB, key, error), \<^verbatim>\<open>monotime.Now()\<close>,
  \<^verbatim>\<open>sphinx.NewPacket\<close> (packet, error), \<^verbatim>\<open>packet.New\<close> (error) and \<^verbatim>\<open>monotime.Now()\<close>
  in \<^verbatim>\<open>dispatchPacket\<close>.  A path is the list of the identifiers of its hops.
\<close>

record attempt =
  timeNow :: int
  fwdPath :: "byte list list"
  fwdThen :: int
  fwdErr :: bool
  revPath :: "byte list list"
  revThen :: int
  revErr :: bool
  surb :: "byte list"
  surbKey :: "byte list"
  surbErr :: bool
  monoNow :: duration
  newPacketRaw :: "byte list"
  newPacketErr :: bool
  pktAllocErr :: bool
  dispatchNow :: duration

text \<open>
  \<^verbatim>\<open>then.Sub(now)\<close> of Go's \<^verbatim>\<open>time\<close>: the difference as a duration, saturated at the
  least and greatest \<^verbatim>\<open>int64\<close>.
\<close>

definition timeSub :: "int \<Rightarrow> int \<Rightarrow> duration" where
  "timeSub t u =
     (if t - u > 2 ^ 63 - 1 then word_of_int (2 ^ 63 - 1)
      else if t - u < - (2 ^ 63) then word_of_int (- (2 ^ 63))
      else word_of_int (t - u))"

text \<open>
  The payload of a loop packet, lines 306-315 (\<open>ufpl\<close> is \<^verbatim>\<open>constants.UserForwardPayloadLength\<close>):
  \<^verbatim>\<open>
    var zeroBytes [constants.UserForwardPayloadLength]byte
    payload := make([]byte, 2, 2+sphinx.SURBLength+constants.UserForwardPayloadLength)
    payload[0] = 1 // Packet has a SURB.
    surb, k, err := sphinx.NewSURB(rand.Reader, revPath)
    if err != nil { d.log.Debugf("Failed to generate SURB: %v", err) }
    payload = append(payload, surb...)
    payload = append(payload, zeroBytes[:]...)
  \<close>
\<close>

definition loopPayload :: "nat \<Rightarrow> byte list \<Rightarrow> byte list" where
  "loopPayload ufpl surbBytes =
     (let zeroBytes = replicate ufpl (0 :: byte);
          payload0 = replicate 2 (0 :: byte);
          payload1 = payload0[0 := 1];
          payload2 = payload1 @ surbBytes;
          payload3 = payload2 @ zeroBytes
      in payload3)"

text \<open>
  \<^verbatim>\<open>dispatchPacket\<close>, lines 372-384: nothing is dispatched when \<^verbatim>\<open>packet.New\<close> fails;
  \<^verbatim>\<open>fwdPath[0]\<close> panics on an empty path.
\<close>

definition dispatchPacket :: "attempt \<Rightarrow> byte list list \<Rightarrow> byte list \<Rightarrow> decoy \<Rightarrow> panic + decoy" where
  "dispatchPacket a path rawBytes d =
     (if pktAllocErr a then Inr d
      else case path of
             [] \<Rightarrow> Inl IndexOutOfRange
           | hop # _ \<Rightarrow>
               Inr (d\<lparr>calls := calls d @
                     [CallDispatch \<lparr>raw = rawBytes, nextNodeHop = hop,
                                    dispatchAt = dispatchNow a\<rparr>]\<rparr>))"

text \<open>
  The body of the block guarded by \<^verbatim>\<open>deltaT < epochtime.TestPeriod*2\<close> in
  \<^verbatim>\<open>sendLoopPacket\<close>, lines 306-338, for the attempt answered by \<open>a\<close>:
  \<^verbatim>\<open>
    ... payload, surb, k as above ...
    ctx := &surbCtx{ id: binary.BigEndian.Uint64(surbID[8:]),
                     eta: monotime.Now() + deltaT, sprpKey: k }
    d.storeSURBCtx(ctx)
    pkt, err := sphinx.NewPacket(rand.Reader, fwdPath, payload)
    if err != nil { return }
    d.dispatchPacket(fwdPath, pkt)
    return
  \<close>
  A failure of \<^verbatim>\<open>sphinx.NewSURB\<close> is logged and nothing else: the code goes on with the
  \<^verbatim>\<open>surb\<close> and \<^verbatim>\<open>k\<close> that were returned, so \<open>surbErr a\<close> is not read.
\<close>

definition buildAndDispatch :: "extern \<Rightarrow> attempt \<Rightarrow> byte list \<Rightarrow> duration \<Rightarrow> decoy \<Rightarrow> panic + decoy" where
  "buildAndDispatch x a surbID deltaT d =
     (let payload = loopPayload (userForwardPayloadLength x) (surb a) in
      bindE (beUint64 (drop 8 surbID)) (\<lambda>i.
      case newSurbCtx i (monoNow a + deltaT) (surbKey a) d of (p, d1) \<Rightarrow>
      bindE (storeSURBCtx p d1) (\<lambda>d2.
        let d3 = d2\<lparr>calls := calls d2 @ [CallStore p]\<rparr>;
            d4 = d3\<lparr>calls := calls d3 @ [CallNewPacket payload]\<rparr>
        in if newPacketErr a then Inr d4
           else dispatchPacket a (fwdPath a) (newPacketRaw a) d4)))"

text \<open>
  The loop of \<^verbatim>\<open>sendLoopPacket\<close>, lines 290-343, from attempt number \<open>attempts\<close> on;
  \<open>w k\<close> is what the collaborators answer in attempt \<open>k\<close>.
  \<^verbatim>\<open>
    for attempts := 0; attempts < maxAttempts; attempts++ {
        now := time.Now()
        fwdPath, then, err := path.New(..., time.Now(), false, true)
        if err != nil { return }
        revPath, then, err := path.New(..., then, false, false)
        if err != nil { return }
        if deltaT := then.Sub(now); deltaT < epochtime.TestPeriod*2 {
            ... the block above ...
        }
    }
  \<close>
\<close>

function sendLoopAttempts ::
    "extern \<Rightarrow> (nat \<Rightarrow> attempt) \<Rightarrow> byte list \<Rightarrow> nat \<Rightarrow> decoy \<Rightarrow> panic + decoy" where
  "sendLoopAttempts x w surbID attempts d =
     (if attempts < maxAttempts then
        let a = w attempts in
        if fwdErr a then Inr d
        else if revErr a then Inr d
        else
          let deltaT = timeSub (revThen a) (timeNow a) in
          if deltaT <s testPeriod x * 2 then buildAndDispatch x a surbID deltaT d
          else sendLoopAttempts x w surbID (Suc attempts) d
      else Inr d)"
  by pat_completeness auto
termination
  by (relation "measure (\<lambda>(x, w, surbID, attempts, d). maxAttempts - attempts)") auto

definition sendLoopPacket :: "extern \<Rightarrow> (nat \<Rightarrow> attempt) \<Rightarrow> uint64 \<Rightarrow> decoy \<Rightarrow> panic + decoy" where
  "sendLoopPacket x w rnd d = sendLoopAttempts x w (makeSURBID d rnd) 0 d"

text \<open>
  The topology snapshot (\<^verbatim>\<open>pkicache.Entry\<close>) as far as the code reads it: the epoch, the
  node's own descriptor and the document with its providers.  A parameter of a Kaetzchen
  is an \<^verbatim>\<open>interface{}\<close>, a string or something else.  The rate \<^verbatim>\<open>LambdaM\<close> of the document
  is a \<^verbatim>\<open>float64\<close>: the code does no arithmetic on it and hands it to \<^verbatim>\<open>rand.Exp\<close>, so it
  is kept as the 64 bits of its representation.
\<close>

type_synonym float64 = "64 word"

datatype param = PString string | POther

record mixDescriptor =
  layer :: "8 word"
  kaetzchen :: "string \<rightharpoonup> (string \<rightharpoonup> param)"

record document =
  lambdaM :: float64
  lambdaMMaxDelay :: uint64
  providers :: "mixDescriptor list"

record entry =
  epoch :: uint64
  self :: mixDescriptor
  doc :: document

text \<open>
  \<^verbatim>\<open>pki.LayerProvider\<close> and \<^verbatim>\<open>kaetzchen.LoopCapability\<close> are declared outside the source
  files at hand; no statement below depends on their values.
\<close>

definition LayerProvider :: "8 word" where
  "LayerProvider = 255"

definition LoopCapability :: string where
  "LoopCapability = ''loop''"

text \<open>
  The search for a provider in \<^verbatim>\<open>sendDecoyPacket\<close>, lines 259-273, along the permutation
  \<^verbatim>\<open>d.rng.Perm(len(doc.Providers))\<close>.
\<close>

fun findProvider :: "mixDescriptor list \<Rightarrow> nat list \<Rightarrow> panic + (mixDescriptor \<times> string) option" where
  "findProvider ps [] = Inr None"
| "findProvider ps (idx # rest) =
     (if idx \<ge> length ps then Inl IndexOutOfRange
      else
        let desc = ps ! idx in
        case kaetzchen desc LoopCapability of
          None \<Rightarrow> findProvider ps rest
        | Some params \<Rightarrow>
            (case params ''endpoint'' of
               Some (PString loopRecip) \<Rightarrow> Inr (Some (desc, loopRecip))
             | _ \<Rightarrow> findProvider ps rest))"

text \<open>What the random generator and the collaborators answer during one \<^verbatim>\<open>sendDecoyPacket\<close>.\<close>

record builderWorld =
  rngPerm :: "nat list"
  rngUint64 :: uint64
  attemptsW :: "nat \<Rightarrow> attempt"

text \<open>\<^verbatim>\<open>sendDecoyPacket\<close>, lines 241-284; \<^verbatim>\<open>isLoopPkt\<close> is the constant \<^verbatim>\<open>true\<close>.\<close>

definition sendDecoyPacket :: "extern \<Rightarrow> builderWorld \<Rightarrow> entry \<Rightarrow> decoy \<Rightarrow> panic + decoy" where
  "sendDecoyPacket x bw ent d =
     (if layer (self ent) = LayerProvider then Inl ProviderDecoy
      else bindE (findProvider (providers (doc ent)) (rngPerm bw)) (\<lambda>found.
             case found of
               None \<Rightarrow> Inr d
             | Some (providerDesc, loopRecip) \<Rightarrow>
                 sendLoopPacket x (attemptsW bw) (rngUint64 bw) d))"

section \<open>Reply Validator\<close>

text \<open>
  An inbound packet as far as \<^verbatim>\<open>OnPacket\<close> reads it: the answer of \<^verbatim>\<open>pkt.IsSURBReply()\<close>,
  \<^verbatim>\<open>pkt.Recipient.ID\<close>, \<^verbatim>\<open>pkt.SurbReply.ID\<close> and \<^verbatim>\<open>pkt.Payload\<close>.
\<close>

record inPacket =
  isSURBReply :: bool
  recipientID :: "byte list"
  surbReplyID :: "byte list"
  payload :: "byte list"

text \<open>\<^verbatim>\<open>subtle.ConstantTimeCompare\<close>: 1 for equal slices, 0 otherwise.\<close>

definition constantTimeCompare :: "byte list \<Rightarrow> byte list \<Rightarrow> int" where
  "constantTimeCompare a b = (if length a \<noteq> length b then 0 else if a = b then 1 else 0)"

definition dropPacket :: "decoy \<Rightarrow> decoy" where
  "dropPacket d = d\<lparr>packetsDropped := packetsDropped d + 1\<rparr>"

text \<open>
  \<^verbatim>\<open>OnPacket\<close>, lines 118-159; \<open>decryptErr payload key\<close> tells whether
  \<^verbatim>\<open>sphinx.DecryptSURBPayload\<close> fails.
\<close>

definition OnPacket :: "(byte list \<Rightarrow> byte list \<Rightarrow> bool) \<Rightarrow> inPacket \<Rightarrow> decoy \<Rightarrow> panic + decoy" where
  "OnPacket decryptErr pkt d =
     (if \<not> isSURBReply pkt then Inl NonSURBReply
      else if constantTimeCompare (recipientID pkt) (recipient d) \<noteq> 1 then Inr (dropPacket d)
      else
        bindE (beUint64 (surbReplyID pkt)) (\<lambda>idBase.
        bindE (beUint64 (drop 8 (surbReplyID pkt))) (\<lambda>i.
          if idBase \<noteq> surbIDBase d then Inr (dropPacket d)
          else
            bindE (loadAndDeleteSURBCtx i (d\<lparr>calls := calls d @ [CallLoadAndDelete i]\<rparr>))
              (\<lambda>(ctx, d1).
                 case ctx of
                   None \<Rightarrow> Inr (dropPacket d1)
                 | Some p \<Rightarrow>
                     bindE (derefCtx d1 p) (\<lambda>c.
                       if decryptErr (payload pkt) (sprpKey c) then Inr (dropPacket d1)
                       else Inr d1)))))"

section \<open>Decoy Scheduler\<close>

text \<open>
  The local variables of \<^verbatim>\<open>worker\<close> that live across iterations, and what the
  configuration, the PKI and the random generator answer during one iteration: the
  two calls of \<^verbatim>\<open>d.glue.PKI().Now()\<close> (epoch and whether \<^verbatim>\<open>err != nil\<close>), the value
  \<^verbatim>\<open>uint64(rand.Exp(d.rng, lambda))\<close> that the generator gives in this iteration, as a
  function of the rate \<^verbatim>\<open>lambda\<close> it is called with, and \<^verbatim>\<open>monotime.Now()\<close> in the sweep.
\<close>

record workerLocals =
  wakeInterval :: duration
  docCache :: "entry option"

record iterWorld =
  cfgSendDecoyTraffic :: bool
  cfgIsProvider :: bool
  cfgDecoySlack :: "64 word"
  pkiNowDoc :: "uint64 \<times> bool"
  pkiNowSched :: "uint64 \<times> bool"
  randExp :: "float64 \<Rightarrow> uint64"
  sweepNow :: duration
  builder :: builderWorld

definition maxDuration :: duration where
  "maxDuration = word_of_int (2 ^ 63 - 1)"

definition Millisecond :: duration where
  "Millisecond = 1000000"

text \<open>
  The case \<^verbatim>\<open>newEnt := <-d.docCh\<close> of the \<^verbatim>\<open>select\<close>, lines 178-203.  The first component
  of the result tells whether the iteration ends there (\<^verbatim>\<open>continue\<close>).
\<close>

definition onDocCh :: "iterWorld \<Rightarrow> entry \<Rightarrow> workerLocals \<times> decoy \<Rightarrow> bool \<times> workerLocals \<times> decoy" where
  "onDocCh iw newEnt = (\<lambda>(l, d).
     if \<not> cfgSendDecoyTraffic iw then (True, l, d\<lparr>ignoredPKIDocs := ignoredPKIDocs d + 1\<rparr>)
     else
       let (now, err) = pkiNowDoc iw in
       if err then (True, l, d\<lparr>ignoredPKIDocs := ignoredPKIDocs d + 1\<rparr>)
       else if epoch newEnt \<noteq> now then (True, l, d\<lparr>ignoredPKIDocs := ignoredPKIDocs d + 1\<rparr>)
       else if cfgIsProvider iw then (True, l, d\<lparr>ignoredPKIDocs := ignoredPKIDocs d + 1\<rparr>)
       else (False, l\<lparr>docCache := Some newEnt\<rparr>,
             d\<lparr>pkiDocs := (pkiDocs d)(now := pkiDocs d now + 1)\<rparr>))"

text \<open>
  The rest of the iteration, lines 208-233, with \<open>timerFired\<close> as the \<^verbatim>\<open>select\<close> left it.
  The timer is then reset to the new \<^verbatim>\<open>wakeInterval\<close>.
\<close>

definition schedule :: "extern \<Rightarrow> iterWorld \<Rightarrow> bool \<Rightarrow> workerLocals \<times> decoy \<Rightarrow> panic + (workerLocals \<times> decoy)" where
  "schedule x iw timerFired = (\<lambda>(l, d).
     let (now, err) = pkiNowSched iw in
     if err \<or> docCache l = None \<or> map_option epoch (docCache l) \<noteq> Some now then
       Inr (l\<lparr>wakeInterval := maxDuration\<rparr>, d)
     else
       case docCache l of
         None \<Rightarrow> Inl NilDeref
       | Some ent \<Rightarrow>
           bindE (if timerFired
                  then sendDecoyPacket x (builder iw) ent (d\<lparr>calls := calls d @ [CallSendDecoy]\<rparr>)
                  else Inr d) (\<lambda>d1.
             let wakeMsec = randExp iw (lambdaM (doc ent));
                 wakeMsec' = (if wakeMsec > lambdaMMaxDelay (doc ent)
                              then lambdaMMaxDelay (doc ent) else wakeMsec);
                 l1 = l\<lparr>wakeInterval := wakeMsec' * Millisecond\<rparr>
             in bindE (sweepSURBCtxs (sweepNow iw) (cfgDecoySlack iw * Millisecond)
                        (d1\<lparr>calls := calls d1 @ [CallSweep]\<rparr>))
                  (\<lambda>(d2, swept). Inr (l1, d2))))"

text \<open>One iteration of the loop of \<^verbatim>\<open>worker\<close>; \<open>None\<close> is the return on \<^verbatim>\<open>HaltCh\<close>.\<close>

datatype event = HaltCh | DocCh entry | TimerC

definition workerIteration ::
    "extern \<Rightarrow> iterWorld \<Rightarrow> event \<Rightarrow> workerLocals \<times> decoy \<Rightarrow> panic + (workerLocals \<times> decoy) option" where
  "workerIteration x iw ev s =
     (case ev of
        HaltCh \<Rightarrow> Inr None
      | DocCh newEnt \<Rightarrow>
          (case onDocCh iw newEnt s of (continue, s1) \<Rightarrow>
             if continue then Inr (Some s1)
             else bindE (schedule x iw False s1) (\<lambda>s2. Inr (Some s2)))
      | TimerC \<Rightarrow> bindE (schedule x iw True s) (\<lambda>s2. Inr (Some s2)))"

section \<open>The invariants of the data model\<close>

text \<open>
  The key of a node of the Expiry Index: the \<^verbatim>\<open>eta\<close> of the first context of its group,
  which is what the comparison function of the tree reads.
\<close>

definition keyOf :: "decoy \<Rightarrow> ptr \<Rightarrow> duration option" where
  "keyOf d n = (case groupOf d n of [] \<Rightarrow> None | p # _ \<Rightarrow> map_option eta (ctxHeap d p))"

definition nodeKey :: "decoy \<Rightarrow> ptr \<Rightarrow> int" where
  "nodeKey d n = sint (the (keyOf d n))"

text \<open>
  A well-formed node holds a non-empty group of contexts; each of them is allocated,
  points back to the node, has the \<^verbatim>\<open>eta\<close> of the node and is the context that the Token
  Store keeps under its id.
\<close>

definition wfNode :: "decoy \<Rightarrow> ptr \<Rightarrow> bool" where
  "wfNode d n \<longleftrightarrow>
     n < nodeTop d \<and>
     (\<exists>ps. nodeHeap d n = Some (CtxList ps) \<and> ps \<noteq> [] \<and>
        (\<forall>p \<in> set ps. \<exists>c. ctxHeap d p = Some c \<and> etaNode c = Some n \<and>
             surbStore d (id' c) = Some p \<and> keyOf d n = Some (eta c)))"

text \<open>
  The invariants of the data model: the nodes of the index are distinct, well-formed and
  in strictly ascending order of their keys; every context of the Token Store is
  reachable through the index and is stored under its own id; addresses from \<open>ctxTop\<close>
  on are free.
\<close>

definition inv :: "decoy \<Rightarrow> bool" where
  "inv d \<longleftrightarrow>
     distinct (surbETAs d) \<and>
     (\<forall>n \<in> set (surbETAs d). wfNode d n) \<and>
     sorted_wrt (<) (map (nodeKey d) (surbETAs d)) \<and>
     (\<forall>i p. surbStore d i = Some p \<longrightarrow> p \<in> set (indexCtxs d) \<and> idOf d p = Some i) \<and>
     (\<forall>p. ctxHeap d p \<noteq> None \<longrightarrow> p < ctxTop d)"

text \<open>
  The test of the sweep on a node, \<^verbatim>\<open>surbCtxs[0].eta+slack > now\<close>, negated; and the
  contexts a sweep visits (each is logged as lost and counted): the groups of the
  longest prefix of nodes that pass the test.
\<close>

definition expired :: "duration \<Rightarrow> duration \<Rightarrow> decoy \<Rightarrow> ptr \<Rightarrow> bool" where
  "expired now slack d n = (\<not> now <s the (keyOf d n) + slack)"

definition sweptCtxs :: "duration \<Rightarrow> duration \<Rightarrow> decoy \<Rightarrow> ptr list" where
  "sweptCtxs now slack d = concat (map (groupOf d) (takeWhile (expired now slack d) (surbETAs d)))"

text \<open>The sum \<^verbatim>\<open>eta+slack\<close> does not leave the range of \<^verbatim>\<open>int64\<close> for any context of the index.\<close>

definition noWrap :: "duration \<Rightarrow> decoy \<Rightarrow> bool" where
  "noWrap slack d \<longleftrightarrow>
     (\<forall>p \<in> set (indexCtxs d). \<forall>c. ctxHeap d p = Some c \<longrightarrow>
        sint (eta c + slack) = sint (eta c) + sint slack)"

text \<open>
  Operations that respect the data model: a store under an id that is not outstanding,
  and a \<^verbatim>\<open>takeById\<close> that misses or hits a context that is alone in its node.
\<close>

fun slipFreeOp :: "op \<Rightarrow> decoy \<Rightarrow> bool" where
  "slipFreeOp (Store i e k) d = (surbStore d i = None)"
| "slipFreeOp (TakeById i) d =
     (case surbStore d i of
        None \<Rightarrow> True
      | Some p \<Rightarrow>
          (case ctxHeap d p of
             None \<Rightarrow> False
           | Some c \<Rightarrow> (case etaNode c of None \<Rightarrow> False | Some n \<Rightarrow> groupOf d n = [p])))"
| "slipFreeOp (Sweep now slack) d = True"

fun slipFreeRun :: "op list \<Rightarrow> decoy \<Rightarrow> bool" where
  "slipFreeRun [] d = True"
| "slipFreeRun (x # xs) d =
     (slipFreeOp x d \<and> (case applyOp x d of Inl _ \<Rightarrow> False | Inr d1 \<Rightarrow> slipFreeRun xs d1))"



text \<open>Concrete states of the manager: one token, and two tokens with different \<^verbatim>\<open>eta\<close>.\<close>

definition dOne :: decoy where
  "dOne = projr (applyOps [Store 1 100 []] (newDecoy [] 0))"

definition dTwo :: decoy where
  "dTwo = projr (applyOps [Store 1 100 [], Store 2 200 []] (newDecoy [] 0))"

section \<open>Notions used in the statements\<close>

text \<open>
  An attempt whose paths were found but whose transit time is not below twice the test
  period: the loop goes on to the next attempt.
\<close>

definition timingOK :: "extern \<Rightarrow> attempt \<Rightarrow> bool" where
  "timingOK x a = (timeSub (revThen a) (timeNow a) <s testPeriod x * 2)"

definition missed :: "extern \<Rightarrow> attempt \<Rightarrow> bool" where
  "missed x a = (\<not> fwdErr a \<and> \<not> revErr a \<and> \<not> timingOK x a)"

text \<open>The calls made between a state and a later one.\<close>

definition newCalls :: "decoy \<Rightarrow> decoy \<Rightarrow> call list" where
  "newCalls d d' = drop (length (calls d)) (calls d')"

text \<open>Concrete answers of the collaborators, for evaluating the builder.\<close>

definition x0 :: extern where
  "x0 = \<lparr>testPeriod = 1000, userForwardPayloadLength = 3\<rparr>"

definition a0 :: attempt where
  "a0 = \<lparr>timeNow = 0, fwdPath = [[1]], fwdThen = 10, fwdErr = False,
         revPath = [[2]], revThen = 20, revErr = False,
         surb = [170], surbKey = [5], surbErr = False, monoNow = 100,
         newPacketRaw = [9], newPacketErr = False, pktAllocErr = False,
         dispatchNow = 101\<rparr>"

text \<open>
  A snapshot for epoch 5 with the rate 0.001 (as a \<^verbatim>\<open>float64\<close>), a maximum delay of 30 and one
  provider that runs the loop service; and answers of the collaborators in which the
  generator draws 40 for that rate and 7 for any other.
\<close>

definition ent0 :: entry where
  "ent0 = \<lparr>epoch = 5, self = \<lparr>layer = 0, kaetzchen = Map.empty\<rparr>,
           doc = \<lparr>lambdaM = 4562254508917369340, lambdaMMaxDelay = 30,
                  providers = [\<lparr>layer = 255,
                                kaetzchen = [LoopCapability \<mapsto> [''endpoint'' \<mapsto> PString ''+loop'']]\<rparr>]\<rparr>\<rparr>"

definition iw0 :: iterWorld where
  "iw0 = \<lparr>cfgSendDecoyTraffic = True, cfgIsProvider = False, cfgDecoySlack = 2,
          pkiNowDoc = (5, False), pkiNowSched = (5, False),
          randExp = (\<lambda>r. if r = 4562254508917369340 then 40 else 7), sweepNow = 50,
          builder = \<lparr>rngPerm = [0], rngUint64 = 7, attemptsW = (\<lambda>_. a0)\<rparr>\<rparr>"

text \<open>
  A snapshot without providers whose maximum delay is the greatest \<^verbatim>\<open>uint64\<close>, and answers
  of the collaborators in which the generator draws 9223372036855.
\<close>

definition entWide :: entry where
  "entWide = \<lparr>epoch = 5, self = \<lparr>layer = 0, kaetzchen = Map.empty\<rparr>,
              doc = \<lparr>lambdaM = 4562254508917369340, lambdaMMaxDelay = 18446744073709551615,
                     providers = []\<rparr>\<rparr>"

definition iwLong :: iterWorld where
  "iwLong = \<lparr>cfgSendDecoyTraffic = True, cfgIsProvider = False, cfgDecoySlack = 2,
             pkiNowDoc = (5, False), pkiNowSched = (5, False),
             randExp = (\<lambda>_. 9223372036855), sweepNow = 50,
             builder = \<lparr>rngPerm = [], rngUint64 = 7, attemptsW = (\<lambda>_. a0)\<rparr>\<rparr>"

text \<open>A reply packet whose SURB identifier carries the base 2 and the suffix 7.\<close>

definition pkt0 :: inPacket where
  "pkt0 = \<lparr>isSURBReply = True, recipientID = [3, 4],
           surbReplyID = [0, 0, 0, 0, 0, 0, 0, 2, 0, 0, 0, 0, 0, 0, 0, 7], payload = []\<rparr>"

section \<open>Evaluation of the manager on concrete operation sequences\<close>

lemmas manager_defs =
  newDecoy_def newSurbCtx_def storeSURBCtx_def avlInsert_def avlRemove_def bindE_def
  setEtaNode_def setValue_def derefCtx_def nodeValue_def asCtxList_def cmpETA_def
  firstETA_def loadAndDeleteSURBCtx_def sweepSURBCtxs_def Let_def word_sless_alt

lemma two_stores_same_eta:
  "applyOps [Store 1 5 k1, Store 2 5 k2] (newDecoy r b) =
     Inr \<lparr>recipient = r, surbETAs = [0],
          surbStore = [1 \<mapsto> 0, 2 \<mapsto> 1], surbIDBase = b,
          nodeHeap = [0 \<mapsto> CtxList [0, 1]],
          ctxHeap = [0 \<mapsto> \<lparr>id' = 1, eta = 5, sprpKey = k1, etaNode = Some 0\<rparr>,
                     1 \<mapsto> \<lparr>id' = 2, eta = 5, sprpKey = k2, etaNode = Some 0\<rparr>],
          nodeTop = 1, ctxTop = 2, packetsDropped = 0, ignoredPKIDocs = 0,
          pkiDocs = (\<lambda>_. 0), calls = []\<rparr>"
  by (simp add: manager_defs)

text \<open>
  C1 (code defect).  Two contexts with distinct ids and the same \<^verbatim>\<open>eta\<close> are stored and
  the first is taken by id.  \<^verbatim>\<open>loadAndDeleteSURBCtx\<close> then assigns the element
  \<^verbatim>\<open>nCtxList[l-1]\<close> (a nil \<^verbatim>\<open>*surbCtx\<close>) to the node's \<^verbatim>\<open>Value\<close>, where the shortened slice
  \<^verbatim>\<open>nCtxList[:l-1]\<close> was meant: id 2 is still in the Token Store, and the only node of the
  Expiry Index no longer holds a group, so no context is reachable through the index.
\<close>

theorem take_from_shared_node_breaks_bijection:
  "(case applyOps [Store 1 5 k1, Store 2 5 k2, TakeById 1] (newDecoy r b) of
      Inl e \<Rightarrow> False
    | Inr d \<Rightarrow> storeIds d = {2} \<and> indexIds d = {} \<and> storeIds d \<noteq> indexIds d \<and>
               surbETAs d = [0] \<and> nodeHeap d 0 = Some (CtxPtr None))"
  by (simp add: manager_defs storeIds_def indexIds_def indexCtxs_def groupOf_def)

text \<open>
  C2 (code defect, the same one as C1).  After two stores with the same \<^verbatim>\<open>eta\<close> there is
  one node, holding both contexts, and one sweep whose horizon covers the \<^verbatim>\<open>eta\<close> removes
  both.  Taking the first by id returns it; taking the second one afterwards panics in the
  type assertion \<^verbatim>\<open>ctx.etaNode.Value.([]*surbCtx)\<close>, so the second context is not
  retrievable.
\<close>

theorem second_take_from_shared_node_panics:
  "bindE (applyOps [Store 1 5 k1, Store 2 5 k2] (newDecoy r b)) (\<lambda>d. Inr (surbETAs d, groupOf d 0))
     = Inr ([0], [0, 1]) \<and>
   bindE (applyOps [Store 1 5 k1, Store 2 5 k2] (newDecoy r b))
     (\<lambda>d. bindE (sweepSURBCtxs 5 0 d) (\<lambda>(d', swept). Inr (surbETAs d', storeIds d', swept)))
     = Inr ([], {}, 2) \<and>
   bindE (applyOps [Store 1 5 k1, Store 2 5 k2] (newDecoy r b))
     (\<lambda>d. bindE (loadAndDeleteSURBCtx 1 d) (\<lambda>(p, d'). Inr (p, storeIds d')))
     = Inr (Some 0, {2}) \<and>
   applyOps [Store 1 5 k1, Store 2 5 k2, TakeById 1, TakeById 2] (newDecoy r b)
     = Inl BadTypeAssertion"
  by (simp add: manager_defs storeIds_def groupOf_def)

section \<open>Byte order and payload\<close>

declare sendLoopAttempts.simps [simp del]

lemma byte_part: "bit (push_bit k (ucast (ucast (drop_bit k (v::uint64)) :: byte) :: uint64)) n \<longleftrightarrow> (k \<le> n \<and> n < k + 8 \<and> n < 64 \<and> bit v n)"
  by (auto simp: bit_simps)

lemma byte_part0: "bit ((ucast (ucast ((v::uint64)) :: byte) :: uint64)) n \<longleftrightarrow> (n < 8 \<and> bit v n)"
  by (auto simp: bit_simps)

lemma beUint64_putUint64: "beUint64 (putUint64 v) = Inr v"
proof -
  have "or (ucast (ucast v :: byte)) (or (push_bit 8 (ucast (ucast (drop_bit 8 v) :: byte)))
               (or (push_bit 16 (ucast (ucast (drop_bit 16 v) :: byte))) (or (push_bit 24 (ucast (ucast (drop_bit 24 v) :: byte)))
               (or (push_bit 32 (ucast (ucast (drop_bit 32 v) :: byte))) (or (push_bit 40 (ucast (ucast (drop_bit 40 v) :: byte)))
               (or (push_bit 48 (ucast (ucast (drop_bit 48 v) :: byte))) (push_bit 56 (ucast (ucast (drop_bit 56 v) :: byte))))))))) = v"
    apply (rule bit_word_eqI)
    apply (simp add: bit_or_iff byte_part byte_part0)
    apply arith
    done
  then show ?thesis
    by (simp add: beUint64_def putUint64_def)
qed

lemma length_putUint64: "length (putUint64 v) = 8"
  by (simp add: putUint64_def)

lemma surbID_suffix: "beUint64 (drop 8 (makeSURBID d rnd)) = Inr rnd"
  by (simp add: makeSURBID_def length_putUint64 beUint64_putUint64)

lemma loopPayload_eq: "loopPayload n s = 1 # 0 # s @ replicate n 0"
  by (simp add: loopPayload_def numeral_2_eq_2)

lemma replicate_three: "replicate 3 x = [x, x, x]"
  by (simp add: numeral_3_eq_3)

lemmas builder_defs =
  sendLoopPacket_def sendLoopAttempts.simps[of _ _ _ 0] maxAttempts_def x0_def a0_def
  timeSub_def buildAndDispatch_def surbID_suffix loopPayload_eq dispatchPacket_def
  newCalls_def replicate_three

text \<open>
  C5, as stated, fails: the flag byte is followed by a zero byte, and the SURB starts at
  offset 2.  With the SURB bytes \<open>[255, 254]\<close> the first three bytes of the payload are
  \<open>[1, 0, 255]\<close> and not the flag followed by the SURB.
\<close>

theorem loop_payload_surb_not_after_flag:
  "take 3 (loopPayload 3 [255, 254]) = [1, 0, 255] \<and>
   take 3 (loopPayload 3 [255, 254]) \<noteq> 1 # [255, 254] \<and>
   length (loopPayload 3 [255, 254]) \<noteq> 3"
  by (simp add: loopPayload_eq replicate_three)

section \<open>The loop-packet cycle\<close>

lemma sendLoopAttempts_exhausted: "sendLoopAttempts x w sid maxAttempts d = Inr d"
  by (subst sendLoopAttempts.simps) simp

lemma sendLoopAttempts_missed:
  "k < maxAttempts \<Longrightarrow> missed x (w k) \<Longrightarrow>
     sendLoopAttempts x w sid k d = sendLoopAttempts x w sid (Suc k) d"
  by (subst sendLoopAttempts.simps) (simp add: missed_def timingOK_def Let_def)

lemma sendLoopAttempts_decided:
  "k < maxAttempts \<Longrightarrow> \<not> missed x (w k) \<Longrightarrow>
     sendLoopAttempts x w sid k d =
       (if fwdErr (w k) \<or> revErr (w k) then Inr d
        else buildAndDispatch x (w k) sid (timeSub (revThen (w k)) (timeNow (w k))) d)"
  by (subst sendLoopAttempts.simps) (auto simp: missed_def timingOK_def Let_def)

lemma sendLoopAttempts_skip:
  "k \<le> j \<Longrightarrow> j \<le> maxAttempts \<Longrightarrow> (\<forall>m. k \<le> m \<and> m < j \<longrightarrow> missed x (w m)) \<Longrightarrow>
     sendLoopAttempts x w sid k d = sendLoopAttempts x w sid j d"
proof (induction "j - k" arbitrary: k)
  case 0
  then show ?case by simp
next
  case (Suc n)
  then have lt: "k < j" and km: "k < maxAttempts" and mk: "missed x (w k)" by auto
  have "sendLoopAttempts x w sid k d = sendLoopAttempts x w sid (Suc k) d"
    using km mk by (rule sendLoopAttempts_missed)
  also have "\<dots> = sendLoopAttempts x w sid j d"
    using Suc lt by (intro Suc.hyps(1)) auto
  finally show ?case .
qed

text \<open>The attempt that decides the cycle.\<close>

lemma sendLoopPacket_decided:
  assumes "j < maxAttempts" and "\<forall>m<j. missed x (w m)" and "\<not> missed x (w j)"
  shows "sendLoopPacket x w rnd d =
           (if fwdErr (w j) \<or> revErr (w j) then Inr d
            else buildAndDispatch x (w j) (makeSURBID d rnd)
                   (timeSub (revThen (w j)) (timeNow (w j))) d)"
proof -
  have "sendLoopAttempts x w (makeSURBID d rnd) 0 d = sendLoopAttempts x w (makeSURBID d rnd) j d"
    using assms by (intro sendLoopAttempts_skip) auto
  then show ?thesis
    using assms by (simp add: sendLoopPacket_def sendLoopAttempts_decided)
qed

lemma sendLoopPacket_all_missed:
  assumes "\<forall>m<maxAttempts. missed x (w m)"
  shows "sendLoopPacket x w rnd d = Inr d"
proof -
  have "sendLoopAttempts x w (makeSURBID d rnd) 0 d
          = sendLoopAttempts x w (makeSURBID d rnd) maxAttempts d"
    using assms by (intro sendLoopAttempts_skip) auto
  then show ?thesis
    by (simp add: sendLoopPacket_def sendLoopAttempts_exhausted)
qed

lemma sendLoopPacket_cases:
  assumes "sendLoopPacket x w rnd d = Inr d'"
  shows "d' = d \<or>
         (\<exists>j<maxAttempts. (\<forall>m<j. missed x (w m)) \<and> \<not> fwdErr (w j) \<and> \<not> revErr (w j) \<and>
              timingOK x (w j) \<and>
              buildAndDispatch x (w j) (makeSURBID d rnd)
                (timeSub (revThen (w j)) (timeNow (w j))) d = Inr d')"
proof (cases "\<forall>m<maxAttempts. missed x (w m)")
  case True
  then show ?thesis using assms by (simp add: sendLoopPacket_all_missed)
next
  case False
  define j where "j = (LEAST m. m < maxAttempts \<and> \<not> missed x (w m))"
  from False have ex: "\<exists>m. m < maxAttempts \<and> \<not> missed x (w m)" by blast
  have j: "j < maxAttempts \<and> \<not> missed x (w j)"
    unfolding j_def using ex by (rule LeastI_ex)
  have least: "\<forall>m<j. missed x (w m)"
  proof (intro allI impI)
    fix m assume "m < j"
    then have "\<not> (m < maxAttempts \<and> \<not> missed x (w m))"
      unfolding j_def by (rule not_less_Least)
    with \<open>m < j\<close> j show "missed x (w m)" by auto
  qed
  have eq: "sendLoopPacket x w rnd d =
           (if fwdErr (w j) \<or> revErr (w j) then Inr d
            else buildAndDispatch x (w j) (makeSURBID d rnd)
                   (timeSub (revThen (w j)) (timeNow (w j))) d)"
    using j least by (intro sendLoopPacket_decided) auto
  show ?thesis
  proof (cases "fwdErr (w j) \<or> revErr (w j)")
    case True
    then show ?thesis using eq assms by simp
  next
    case False
    then have "timingOK x (w j)" using j by (auto simp: missed_def)
    then show ?thesis using eq assms False j least by auto
  qed
qed

lemma newSurbCtx_eq:
  "newSurbCtx i e k d =
     (ctxTop d, d\<lparr>ctxHeap := (ctxHeap d)(ctxTop d \<mapsto> \<lparr>id' = i, eta = e, sprpKey = k, etaNode = None\<rparr>),
                  ctxTop := Suc (ctxTop d)\<rparr>)"
  by (simp add: newSurbCtx_def Let_def)

lemma avlInsert_frame:
  "avlInsert d v = Inr (n, d1) \<Longrightarrow>
     ctxHeap d1 = ctxHeap d \<and> surbStore d1 = surbStore d \<and> calls d1 = calls d \<and>
     packetsDropped d1 = packetsDropped d \<and> ignoredPKIDocs d1 = ignoredPKIDocs d \<and>
     pkiDocs d1 = pkiDocs d \<and> surbIDBase d1 = surbIDBase d \<and> recipient d1 = recipient d \<and> ctxTop d1 = ctxTop d"
  by (auto simp: avlInsert_def bindE_def Let_def split: sum.splits option.splits prod.splits)

lemma storeSURBCtx_result:
  assumes "ctxHeap d p = Some c" and "storeSURBCtx p d = Inr d2"
  shows "calls d2 = calls d \<and> surbStore d2 = (surbStore d)(id' c \<mapsto> p) \<and>
         (\<exists>n. ctxHeap d2 = (ctxHeap d)(p \<mapsto> c\<lparr>etaNode := Some n\<rparr>)) \<and>
         packetsDropped d2 = packetsDropped d \<and> ignoredPKIDocs d2 = ignoredPKIDocs d \<and>
         pkiDocs d2 = pkiDocs d \<and> surbIDBase d2 = surbIDBase d \<and> recipient d2 = recipient d"
  using assms
  apply (simp add: storeSURBCtx_def)
  apply (simp add: bindE_def split: sum.splits prod.splits)
  apply (clarsimp dest!: avlInsert_frame)
  apply (auto simp: setEtaNode_def setValue_def derefCtx_def nodeValue_def bindE_def asCtxList_def
              split: sum.splits option.splits list.splits if_splits iface.splits)
  done

lemma buildAndDispatch_result:
  assumes "buildAndDispatch x a (makeSURBID d rnd) deltaT d = Inr d'"
  shows "\<exists>d2 n. storeSURBCtx (ctxTop d) (snd (newSurbCtx rnd (monoNow a + deltaT) (surbKey a) d)) = Inr d2 \<and>
           surbStore d2 rnd = Some (ctxTop d) \<and>
           ctxHeap d2 (ctxTop d) = Some \<lparr>id' = rnd, eta = monoNow a + deltaT, sprpKey = surbKey a, etaNode = Some n\<rparr> \<and>
           calls d2 = calls d \<and>
           d' = d2\<lparr>calls := calls d @
                   [CallStore (ctxTop d), CallNewPacket (loopPayload (userForwardPayloadLength x) (surb a))] @
                   (if newPacketErr a \<or> pktAllocErr a then []
                    else [CallDispatch \<lparr>raw = newPacketRaw a, nextNodeHop = hd (fwdPath a),
                                         dispatchAt = dispatchNow a\<rparr>])\<rparr>"
proof -
  let ?d1 = "snd (newSurbCtx rnd (monoNow a + deltaT) (surbKey a) d)"
  let ?c = "\<lparr>id' = rnd, eta = monoNow a + deltaT, sprpKey = surbKey a, etaNode = None\<rparr>"
  from assms obtain d2 where st: "storeSURBCtx (ctxTop d) ?d1 = Inr d2"
    by (auto simp: buildAndDispatch_def surbID_suffix bindE_def newSurbCtx_eq Let_def split: sum.splits)
  have h: "ctxHeap ?d1 (ctxTop d) = Some ?c" by (simp add: newSurbCtx_eq)
  note r = storeSURBCtx_result[OF h st]
  from r obtain n where n: "ctxHeap d2 = (ctxHeap ?d1)(ctxTop d \<mapsto> ?c\<lparr>etaNode := Some n\<rparr>)" by blast
  have c2: "calls d2 = calls d" using r by (simp add: newSurbCtx_eq)
  have s2: "surbStore d2 rnd = Some (ctxTop d)" using r by simp
  have d': "d' = d2\<lparr>calls := calls d @
                   [CallStore (ctxTop d), CallNewPacket (loopPayload (userForwardPayloadLength x) (surb a))] @
                   (if newPacketErr a \<or> pktAllocErr a then []
                    else [CallDispatch \<lparr>raw = newPacketRaw a, nextNodeHop = hd (fwdPath a),
                                         dispatchAt = dispatchNow a\<rparr>])\<rparr>"
    using assms st c2
    by (auto simp: buildAndDispatch_def surbID_suffix bindE_def newSurbCtx_eq Let_def dispatchPacket_def
             split: sum.splits list.splits if_splits)
  show ?thesis using st s2 n c2 d' by auto
qed


lemma newCalls_append [simp]: "calls d' = calls d @ cs \<Longrightarrow> newCalls d d' = cs"
  by (simp add: newCalls_def)

lemma newCalls_same [simp]: "newCalls d d = []"
  by (simp add: newCalls_def)

text \<open>What one cycle of the loop-packet builder leaves behind.\<close>

lemma sendLoopPacket_outcome:
  assumes "sendLoopPacket x w rnd d = Inr d'"
  shows "d' = d \<or>
    (\<exists>j<maxAttempts. \<exists>d2 n.
       (\<forall>m<j. missed x (w m)) \<and> \<not> fwdErr (w j) \<and> \<not> revErr (w j) \<and> timingOK x (w j) \<and>
       storeSURBCtx (ctxTop d)
         (snd (newSurbCtx rnd (monoNow (w j) + timeSub (revThen (w j)) (timeNow (w j)))
                 (surbKey (w j)) d)) = Inr d2 \<and>
       surbStore d2 rnd = Some (ctxTop d) \<and>
       ctxHeap d2 (ctxTop d) =
         Some \<lparr>id' = rnd, eta = monoNow (w j) + timeSub (revThen (w j)) (timeNow (w j)),
               sprpKey = surbKey (w j), etaNode = Some n\<rparr> \<and>
       calls d2 = calls d \<and>
       d' = d2\<lparr>calls := calls d @
               [CallStore (ctxTop d),
                CallNewPacket (loopPayload (userForwardPayloadLength x) (surb (w j)))] @
               (if newPacketErr (w j) \<or> pktAllocErr (w j) then []
                else [CallDispatch \<lparr>raw = newPacketRaw (w j), nextNodeHop = hd (fwdPath (w j)),
                                     dispatchAt = dispatchNow (w j)\<rparr>])\<rparr>)"
  using sendLoopPacket_cases[OF assms]
proof
  assume "d' = d" then show ?thesis by simp
next
  assume "\<exists>j<maxAttempts. (\<forall>m<j. missed x (w m)) \<and> \<not> fwdErr (w j) \<and> \<not> revErr (w j) \<and>
              timingOK x (w j) \<and>
              buildAndDispatch x (w j) (makeSURBID d rnd)
                (timeSub (revThen (w j)) (timeNow (w j))) d = Inr d'"
  then obtain j where j: "j < maxAttempts" "\<forall>m<j. missed x (w m)" "\<not> fwdErr (w j)"
      "\<not> revErr (w j)" "timingOK x (w j)"
      and b: "buildAndDispatch x (w j) (makeSURBID d rnd)
                (timeSub (revThen (w j)) (timeNow (w j))) d = Inr d'"
    by blast
  from buildAndDispatch_result[OF b] j show ?thesis by blast
qed

text \<open>
  C5 (amended).  The payload of a loop packet is the flag byte 1, one zero byte, the
  bytes of the SURB as \<^verbatim>\<open>sphinx.NewSURB\<close> returned them, and then
  \<^verbatim>\<open>UserForwardPayloadLength\<close> zero bytes: \<open>2 + |SURB| + UserForwardPayloadLength\<close>
  bytes in all.  Every payload that \<^verbatim>\<open>sendLoopPacket\<close> hands to \<^verbatim>\<open>sphinx.NewPacket\<close>
  is of this form, for the SURB of one of its attempts.
\<close>

theorem loop_payload_wire_format:
  "loopPayload ufpl s = [1, 0] @ s @ replicate ufpl 0 \<and>
   length (loopPayload ufpl s) = 2 + length s + ufpl \<and>
   (sendLoopPacket x w rnd d = Inr d' \<and> CallNewPacket pl \<in> set (newCalls d d') \<longrightarrow>
      (\<exists>j<maxAttempts. pl = [1, 0] @ surb (w j) @ replicate (userForwardPayloadLength x) 0))"
proof (intro conjI impI)
  show "loopPayload ufpl s = [1, 0] @ s @ replicate ufpl 0" by (simp add: loopPayload_eq)
  show "length (loopPayload ufpl s) = 2 + length s + ufpl" by (simp add: loopPayload_eq)
  assume a: "sendLoopPacket x w rnd d = Inr d' \<and> CallNewPacket pl \<in> set (newCalls d d')"
  then have r: "sendLoopPacket x w rnd d = Inr d'" and m: "CallNewPacket pl \<in> set (newCalls d d')"
    by auto
  from sendLoopPacket_outcome[OF r] m obtain j d2 where j: "j < maxAttempts"
    and d': "d' = d2\<lparr>calls := calls d @
               [CallStore (ctxTop d),
                CallNewPacket (loopPayload (userForwardPayloadLength x) (surb (w j)))] @
               (if newPacketErr (w j) \<or> pktAllocErr (w j) then []
                else [CallDispatch \<lparr>raw = newPacketRaw (w j), nextNodeHop = hd (fwdPath (w j)),
                                     dispatchAt = dispatchNow (w j)\<rparr>])\<rparr>"
    by (elim disjE exE conjE) simp_all
  from d' have "newCalls d d' = [CallStore (ctxTop d),
                CallNewPacket (loopPayload (userForwardPayloadLength x) (surb (w j)))] @
               (if newPacketErr (w j) \<or> pktAllocErr (w j) then []
                else [CallDispatch \<lparr>raw = newPacketRaw (w j), nextNodeHop = hd (fwdPath (w j)),
                                     dispatchAt = dispatchNow (w j)\<rparr>])"
    by (intro newCalls_append) simp
  with m have "pl = loopPayload (userForwardPayloadLength x) (surb (w j))"
    by (simp split: if_splits)
  with j show "\<exists>j<maxAttempts. pl = [1, 0] @ surb (w j) @ replicate (userForwardPayloadLength x) 0"
    by (auto simp: loopPayload_eq)
qed

theorem loop_payload_wire_format_witness:
  "sendLoopPacket x0 (\<lambda>_. a0) 7 (newDecoy [] 1)
     = Inr (projr (sendLoopPacket x0 (\<lambda>_. a0) 7 (newDecoy [] 1))) \<and>
   CallNewPacket [1, 0, 170, 0, 0, 0]
     \<in> set (newCalls (newDecoy [] 1) (projr (sendLoopPacket x0 (\<lambda>_. a0) 7 (newDecoy [] 1)))) \<and>
   (\<exists>j<maxAttempts. [1, 0, 170, 0, 0, 0]
        = [1, 0] @ surb ((\<lambda>_. a0) j) @ replicate (userForwardPayloadLength x0) 0)"
  using loop_payload_wire_format[of 3 "[170]" x0 "\<lambda>_. a0" 7 "newDecoy [] 1"
          "projr (sendLoopPacket x0 (\<lambda>_. a0) 7 (newDecoy [] 1))" "[1, 0, 170, 0, 0, 0]"]
  by (simp add: builder_defs manager_defs)

text \<open>
  C9.  Whenever a cycle of \<^verbatim>\<open>sendLoopPacket\<close> hands a packet to the connector, the calls
  of the cycle are, in this order, \<^verbatim>\<open>storeSURBCtx\<close>, \<^verbatim>\<open>sphinx.NewPacket\<close> and
  \<^verbatim>\<open>DispatchPacket\<close>; and in the state \<open>d4\<close> in which the connector is called the Token
  Store maps the token id (the random suffix of the SURB identifier) to the context
  with that id, \<^verbatim>\<open>eta = monotime.Now() + deltaT\<close> and the key of the SURB, linked to a node
  of the index.
\<close>

theorem token_stored_before_dispatch:
  assumes "sendLoopPacket x w rnd d = Inr d'" and "CallDispatch pkt \<in> set (newCalls d d')"
  shows "\<exists>j<maxAttempts. \<exists>n d4.
           newCalls d d' =
             [CallStore (ctxTop d),
              CallNewPacket (loopPayload (userForwardPayloadLength x) (surb (w j))),
              CallDispatch pkt] \<and>
           d' = d4\<lparr>calls := calls d4 @ [CallDispatch pkt]\<rparr> \<and>
           surbStore d4 rnd = Some (ctxTop d) \<and>
           ctxHeap d4 (ctxTop d) =
             Some \<lparr>id' = rnd, eta = monoNow (w j) + timeSub (revThen (w j)) (timeNow (w j)),
                   sprpKey = surbKey (w j), etaNode = Some n\<rparr>"
  using sendLoopPacket_outcome[OF assms(1)]
proof
  assume "d' = d" with assms(2) show ?thesis by simp
next
  assume "\<exists>j<maxAttempts. \<exists>d2 n.
       (\<forall>m<j. missed x (w m)) \<and> \<not> fwdErr (w j) \<and> \<not> revErr (w j) \<and> timingOK x (w j) \<and>
       storeSURBCtx (ctxTop d)
         (snd (newSurbCtx rnd (monoNow (w j) + timeSub (revThen (w j)) (timeNow (w j)))
                 (surbKey (w j)) d)) = Inr d2 \<and>
       surbStore d2 rnd = Some (ctxTop d) \<and>
       ctxHeap d2 (ctxTop d) =
         Some \<lparr>id' = rnd, eta = monoNow (w j) + timeSub (revThen (w j)) (timeNow (w j)),
               sprpKey = surbKey (w j), etaNode = Some n\<rparr> \<and>
       calls d2 = calls d \<and>
       d' = d2\<lparr>calls := calls d @
               [CallStore (ctxTop d),
                CallNewPacket (loopPayload (userForwardPayloadLength x) (surb (w j)))] @
               (if newPacketErr (w j) \<or> pktAllocErr (w j) then []
                else [CallDispatch \<lparr>raw = newPacketRaw (w j), nextNodeHop = hd (fwdPath (w j)),
                                     dispatchAt = dispatchNow (w j)\<rparr>])\<rparr>"
  then obtain j d2 n where j: "j < maxAttempts"
    and s: "surbStore d2 rnd = Some (ctxTop d)"
    and h: "ctxHeap d2 (ctxTop d) =
         Some \<lparr>id' = rnd, eta = monoNow (w j) + timeSub (revThen (w j)) (timeNow (w j)),
               sprpKey = surbKey (w j), etaNode = Some n\<rparr>"
    and d': "d' = d2\<lparr>calls := calls d @
               [CallStore (ctxTop d),
                CallNewPacket (loopPayload (userForwardPayloadLength x) (surb (w j)))] @
               (if newPacketErr (w j) \<or> pktAllocErr (w j) then []
                else [CallDispatch \<lparr>raw = newPacketRaw (w j), nextNodeHop = hd (fwdPath (w j)),
                                     dispatchAt = dispatchNow (w j)\<rparr>])\<rparr>"
    by blast
  let ?pre = "[CallStore (ctxTop d),
                CallNewPacket (loopPayload (userForwardPayloadLength x) (surb (w j)))]"
  let ?d4 = "d2\<lparr>calls := calls d @ ?pre\<rparr>"
  from d' assms(2) have ok: "\<not> (newPacketErr (w j) \<or> pktAllocErr (w j))"
    by (auto split: if_splits)
  with d' assms(2) have pkt: "pkt = \<lparr>raw = newPacketRaw (w j), nextNodeHop = hd (fwdPath (w j)),
                                     dispatchAt = dispatchNow (w j)\<rparr>"
    by auto
  have 1: "newCalls d d' = ?pre @ [CallDispatch pkt]" using d' ok pkt by simp
  have 2: "d' = ?d4\<lparr>calls := calls ?d4 @ [CallDispatch pkt]\<rparr>" using d' ok pkt by simp
  have 3: "surbStore ?d4 rnd = Some (ctxTop d)" using s by simp
  have 4: "ctxHeap ?d4 (ctxTop d) =
         Some \<lparr>id' = rnd, eta = monoNow (w j) + timeSub (revThen (w j)) (timeNow (w j)),
               sprpKey = surbKey (w j), etaNode = Some n\<rparr>" using h by simp
  show ?thesis using j 1 2 3 4 by (intro exI[of _ j] conjI exI[of _ n] exI[of _ ?d4]) auto
qed

theorem token_stored_before_dispatch_witness:
  "sendLoopPacket x0 (\<lambda>_. a0) 7 (newDecoy [] 1)
     = Inr (projr (sendLoopPacket x0 (\<lambda>_. a0) 7 (newDecoy [] 1))) \<and>
   CallDispatch \<lparr>raw = [9], nextNodeHop = [1], dispatchAt = 101\<rparr>
     \<in> set (newCalls (newDecoy [] 1) (projr (sendLoopPacket x0 (\<lambda>_. a0) 7 (newDecoy [] 1)))) \<and>
   (\<exists>j<maxAttempts. \<exists>n d4.
      newCalls (newDecoy [] 1) (projr (sendLoopPacket x0 (\<lambda>_. a0) 7 (newDecoy [] 1))) =
        [CallStore (ctxTop (newDecoy [] 1)),
         CallNewPacket (loopPayload (userForwardPayloadLength x0) (surb ((\<lambda>_. a0) j))),
         CallDispatch \<lparr>raw = [9], nextNodeHop = [1], dispatchAt = 101\<rparr>] \<and>
      projr (sendLoopPacket x0 (\<lambda>_. a0) 7 (newDecoy [] 1)) =
        d4\<lparr>calls := calls d4 @ [CallDispatch \<lparr>raw = [9], nextNodeHop = [1], dispatchAt = 101\<rparr>]\<rparr> \<and>
      surbStore d4 7 = Some (ctxTop (newDecoy [] 1)) \<and>
      ctxHeap d4 (ctxTop (newDecoy [] 1)) =
        Some \<lparr>id' = 7,
              eta = monoNow ((\<lambda>_. a0) j)
                    + timeSub (revThen ((\<lambda>_. a0) j)) (timeNow ((\<lambda>_. a0) j)),
              sprpKey = surbKey ((\<lambda>_. a0) j), etaNode = Some n\<rparr>)"
proof -
  have r: "sendLoopPacket x0 (\<lambda>_. a0) 7 (newDecoy [] 1)
             = Inr (projr (sendLoopPacket x0 (\<lambda>_. a0) 7 (newDecoy [] 1)))"
    by (simp add: builder_defs manager_defs)
  have m: "CallDispatch \<lparr>raw = [9], nextNodeHop = [1], dispatchAt = 101\<rparr>
     \<in> set (newCalls (newDecoy [] 1) (projr (sendLoopPacket x0 (\<lambda>_. a0) 7 (newDecoy [] 1))))"
    by (simp add: builder_defs manager_defs)
  from r m token_stored_before_dispatch[OF r m] show ?thesis by blast
qed

text \<open>
  C3, as stated, fails: the context is stored before \<^verbatim>\<open>sphinx.NewPacket\<close> is called, so
  when the layered encryption fails the token has been recorded (and stays recorded).
\<close>

theorem encryption_failure_leaves_token_recorded:
  "newPacketErr (a0\<lparr>newPacketErr := True\<rparr>) \<and>
   (case sendLoopPacket x0 (\<lambda>_. a0\<lparr>newPacketErr := True\<rparr>) 7 (newDecoy [] 1) of
      Inl e \<Rightarrow> False
    | Inr d \<Rightarrow> surbStore d 7 = Some 0 \<and> storeIds d = {7} \<and> storeIds (newDecoy [] 1) = {} \<and>
               calls d = [CallStore 0, CallNewPacket [1, 0, 170, 0, 0, 0]])"
  by (simp add: builder_defs manager_defs storeIds_def)

text \<open>
  The failure of \<^verbatim>\<open>sphinx.NewSURB\<close> is only logged (there is no \<^verbatim>\<open>return\<close> after the log
  line 312): the cycle goes on, records a token and dispatches a packet whose payload
  holds the \<^verbatim>\<open>surb\<close> that was returned with the error.
\<close>

lemma surb_failure_still_dispatches:
  "(case sendLoopPacket x0 (\<lambda>_. a0\<lparr>surbErr := True, surb := [], surbKey := []\<rparr>) 7 (newDecoy [] 1) of
      Inl e \<Rightarrow> False
    | Inr d \<Rightarrow> surbStore d 7 = Some 0 \<and>
               calls d = [CallStore 0, CallNewPacket [1, 0, 0, 0, 0],
                          CallDispatch \<lparr>raw = [9], nextNodeHop = [1], dispatchAt = 101\<rparr>])"
  by (simp add: builder_defs manager_defs)

section \<open>Reply Validator and Scheduler\<close>

lemma sweepGroup_frame:
  "sweepGroup ps d k = Inr (d', k') \<Longrightarrow>
     calls d' = calls d \<and> surbETAs d' = surbETAs d \<and> nodeHeap d' = nodeHeap d \<and>
     ctxHeap d' = ctxHeap d \<and> k' = k + length ps"
proof (induction ps arbitrary: d k)
  case Nil
  then show ?case by simp
next
  case (Cons p ps)
  from Cons.prems obtain c where c: "ctxHeap d p = Some c"
    and r: "sweepGroup ps (d\<lparr>surbStore := (surbStore d)(id' c := None)\<rparr>) (Suc k) = Inr (d', k')"
    by (auto simp: bindE_def derefCtx_def split: sum.splits option.splits)
  from Cons.IH[OF r] show ?case by simp
qed

lemma sweepNodes_calls:
  "sweepNodes now slack ns d k = Inr (d', k') \<Longrightarrow> calls d' = calls d"
proof (induction ns arbitrary: d k)
  case Nil
  then show ?case by simp
next
  case (Cons n ns)
  show ?case
  proof (cases "nodeValue d n")
    case (Inl e) with Cons.prems show ?thesis by (simp add: bindE_def)
  next
    case (Inr v)
    show ?thesis
    proof (cases "asCtxList v")
      case (Inl e) with Cons.prems Inr show ?thesis by (simp add: bindE_def)
    next
      case ps: (Inr ps)
      show ?thesis
      proof (cases "firstETA d ps")
        case (Inl e) with Cons.prems Inr ps show ?thesis by (simp add: bindE_def)
      next
        case e: (Inr e)
        show ?thesis
        proof (cases "now <s e + slack")
          case True with Cons.prems Inr ps e show ?thesis by (simp add: bindE_def)
        next
          case False
          show ?thesis
          proof (cases "sweepGroup ps d k")
            case (Inl err) with Cons.prems Inr ps e False show ?thesis by (simp add: bindE_def)
          next
            case g: (Inr r)
            obtain d1 k1 where r: "r = (d1, k1)" by (cases r)
            from Cons.prems Inr ps e False g r
            have "sweepNodes now slack ns (avlRemove n d1) k1 = Inr (d', k')"
              by (simp add: bindE_def)
            from Cons.IH[OF this] sweepGroup_frame[OF g[unfolded r]]
            show ?thesis by (simp add: avlRemove_def)
          qed
        qed
      qed
    qed
  qed
qed

lemma sweepSURBCtxs_calls:
  "sweepSURBCtxs now slack d = Inr (d', k) \<Longrightarrow> calls d' = calls d"
  by (auto simp: sweepSURBCtxs_def dest: sweepNodes_calls split: if_splits)

lemma sendLoopPacket_calls:
  assumes "sendLoopPacket x w rnd d = Inr d'"
  shows "\<exists>cs. calls d' = calls d @ cs \<and> CallSendDecoy \<notin> set cs \<and> CallSweep \<notin> set cs"
  using sendLoopPacket_outcome[OF assms] by auto

lemma sendDecoyPacket_calls:
  assumes "sendDecoyPacket x bw ent d = Inr d'"
  shows "\<exists>cs. calls d' = calls d @ cs \<and> CallSendDecoy \<notin> set cs \<and> CallSweep \<notin> set cs"
  using assms
  by (auto simp: sendDecoyPacket_def bindE_def dest: sendLoopPacket_calls
           split: if_splits sum.splits option.splits prod.splits)

text \<open>
  C8.  A packet marked as a SURB reply whose 16-byte SURB identifier starts with a base
  other than \<^verbatim>\<open>d.surbIDBase\<close> is dropped: \<^verbatim>\<open>OnPacket\<close> returns the state it was given
  with \<^verbatim>\<open>packetsDropped\<close> incremented and nothing else changed (neither the Token Store
  nor the Expiry Index), and \<^verbatim>\<open>loadAndDeleteSURBCtx\<close> has not been called.
\<close>

theorem foreign_token_base_dropped_without_lookup:
  assumes "isSURBReply pkt" and "length (surbReplyID pkt) = 16"
    and "beUint64 (surbReplyID pkt) = Inr idBase" and "idBase \<noteq> surbIDBase d"
  shows "OnPacket decryptErr pkt d = Inr (d\<lparr>packetsDropped := packetsDropped d + 1\<rparr>) \<and>
         (\<forall>i. CallLoadAndDelete i \<notin> set (newCalls d (d\<lparr>packetsDropped := packetsDropped d + 1\<rparr>)))"
  using assms by (simp add: OnPacket_def bindE_def beUint64_def dropPacket_def newCalls_def)

theorem foreign_token_base_dropped_without_lookup_witness:
  "isSURBReply pkt0 \<and> length (surbReplyID pkt0) = 16 \<and>
   beUint64 (surbReplyID pkt0) = Inr 2 \<and> 2 \<noteq> surbIDBase (newDecoy [3, 4] 1) \<and>
   OnPacket (\<lambda>_ _. False) pkt0 (newDecoy [3, 4] 1)
     = Inr ((newDecoy [3, 4] 1)\<lparr>packetsDropped := packetsDropped (newDecoy [3, 4] 1) + 1\<rparr>) \<and>
   surbStore (projr (OnPacket (\<lambda>_ _. False) pkt0 (newDecoy [3, 4] 1))) = surbStore (newDecoy [3, 4] 1)"
proof -
  have 1: "isSURBReply pkt0" and 2: "length (surbReplyID pkt0) = 16"
    and 3: "beUint64 (surbReplyID pkt0) = Inr 2" and 4: "2 \<noteq> surbIDBase (newDecoy [3, 4] 1)"
    by (simp_all add: pkt0_def beUint64_def newDecoy_def)
  from foreign_token_base_dropped_without_lookup[OF 1 2 3 4, of "\<lambda>_ _. False"] 1 2 3 4
  show ?thesis by simp
qed



text \<open>A number of milliseconds that fits into a duration is represented exactly.\<close>

lemma milliseconds_exact:
  fixes w :: "64 word"
  assumes "unat w * 1000000 < 2 ^ 63"
  shows "sint (w * 1000000) = int (unat w) * 1000000"
proof -
  have a: "int (unat w) * 1000000 < 2 ^ 63"
  proof -
    have "int (unat w * 1000000) < int (2 ^ 63)" using assms by (rule iffD2[OF of_nat_less_iff])
    then show ?thesis by simp
  qed
  have b: "(0 :: int) \<le> int (unat w) * 1000000" by simp
  have a': "int (unat w) * 1000000 < 2 ^ 64"
  proof -
    have "(2 :: int) ^ 63 < 2 ^ 64" by simp
    with a show ?thesis by (rule less_trans)
  qed
  have "uint (w * 1000000) = uint w * uint (1000000 :: 64 word) mod 2 ^ 64"
    by (simp only: uint_word_ariths len_of_numeral_defs) simp
  also have "uint (1000000 :: 64 word) = 1000000" by simp
  also have "uint w = int (unat w)" by (rule uint_nat)
  also have "int (unat w) * 1000000 mod 2 ^ 64 = int (unat w) * 1000000"
    by (rule mod_pos_pos_trivial[OF b a'])
  finally have u: "uint (w * 1000000) = int (unat w) * 1000000" .
  have c: "sint (w * 1000000) = signed_take_bit 63 (int (unat w) * 1000000)"
    by (simp only: sint_uint u) simp
  have "- (2 ^ 63) \<le> (0 :: int)" by simp
  with b have lb: "- (2 ^ 63) \<le> int (unat w) * 1000000" by (rule order_trans[rotated])
  show ?thesis unfolding c by (rule signed_take_bit_int_eq_self[OF lb a])
qed

section \<open>The invariant and the bijection between store and index\<close>

lemma inv_newDecoy: "inv (newDecoy r b)"
  by (simp add: inv_def newDecoy_def)

lemma wfNode_group:
  "wfNode d n \<Longrightarrow> \<exists>p ps c. groupOf d n = p # ps \<and> nodeHeap d n = Some (CtxList (p # ps)) \<and>
       ctxHeap d p = Some c \<and> keyOf d n = Some (eta c)"
  by (auto simp: wfNode_def groupOf_def keyOf_def neq_Nil_conv)

lemma in_indexCtxs: "p \<in> set (indexCtxs d) \<longleftrightarrow> (\<exists>n \<in> set (surbETAs d). p \<in> set (groupOf d n))"
  by (auto simp: indexCtxs_def)

lemma inv_index_ctx:
  assumes "inv d" "p \<in> set (indexCtxs d)"
  shows "\<exists>c n. ctxHeap d p = Some c \<and> etaNode c = Some n \<and> n \<in> set (surbETAs d) \<and>
               p \<in> set (groupOf d n) \<and> surbStore d (id' c) = Some p \<and> keyOf d n = Some (eta c)"
proof -
  from assms(2) obtain n where n: "n \<in> set (surbETAs d)" "p \<in> set (groupOf d n)"
    by (auto simp: in_indexCtxs)
  with assms(1) have "wfNode d n" by (simp add: inv_def)
  with n show ?thesis by (fastforce simp: wfNode_def groupOf_def)
qed

text \<open>The bijection between store and index under the invariant.\<close>

lemma inv_bijection: "inv d \<Longrightarrow> storeIds d = indexIds d"
proof (intro set_eqI iffI)
  fix i assume "inv d" "i \<in> storeIds d"
  then show "i \<in> indexIds d"
    by (auto simp: storeIds_def indexIds_def inv_def)
next
  fix i assume i: "inv d" "i \<in> indexIds d"
  then obtain p where p: "p \<in> set (indexCtxs d)" "idOf d p = Some i"
    by (auto simp: indexIds_def)
  from inv_index_ctx[OF i(1) p(1)] p(2) show "i \<in> storeIds d"
    by (auto simp: storeIds_def idOf_def)
qed

lemma sweepGroup_store:
  "sweepGroup ps d k = Inr (d', k') \<Longrightarrow>
     d' = d\<lparr>surbStore := surbStore d'\<rparr> \<and> k' = k + length ps \<and>
     (\<forall>i. surbStore d' i = (if \<exists>p \<in> set ps. idOf d p = Some i then None else surbStore d i))"
proof (induction ps arbitrary: d k)
  case Nil
  then show ?case by simp
next
  case (Cons p ps)
  from Cons.prems obtain c where c: "ctxHeap d p = Some c"
    and r: "sweepGroup ps (d\<lparr>surbStore := (surbStore d)(id' c := None)\<rparr>) (Suc k) = Inr (d', k')"
    by (auto simp: bindE_def derefCtx_def split: sum.splits option.splits)
  let ?d1 = "d\<lparr>surbStore := (surbStore d)(id' c := None)\<rparr>"
  from Cons.IH[OF r] have e: "d' = ?d1\<lparr>surbStore := surbStore d'\<rparr>"
    and k: "k' = Suc k + length ps"
    and s: "\<And>i. surbStore d' i = (if \<exists>p \<in> set ps. idOf ?d1 p = Some i then None else surbStore ?d1 i)"
    by blast+
  have 1: "d' = d\<lparr>surbStore := surbStore d'\<rparr>" by (subst e) simp
  have 2: "surbStore d' i = (if \<exists>p \<in> set (p # ps). idOf d p = Some i then None else surbStore d i)" for i
    using s[of i] c by (auto simp: idOf_def)
  have 3: "k' = k + length (p # ps)" using k by simp
  from 1 2 3 show ?case by blast
qed

lemma sweepGroup_total:
  "\<forall>p \<in> set ps. ctxHeap d p \<noteq> None \<Longrightarrow> \<exists>d'. sweepGroup ps d k = Inr (d', k + length ps)"
proof (induction ps arbitrary: d k)
  case Nil
  then show ?case by simp
next
  case (Cons p ps)
  then obtain c where c: "ctxHeap d p = Some c" by auto
  let ?d1 = "d\<lparr>surbStore := (surbStore d)(id' c := None)\<rparr>"
  have "\<forall>p \<in> set ps. ctxHeap ?d1 p \<noteq> None" using Cons.prems by simp
  from Cons.IH[OF this, of "Suc k"] c show ?case
    by (auto simp: bindE_def derefCtx_def)
qed

lemma groupOf_cong:
  assumes "nodeHeap d' = nodeHeap d"
  shows "groupOf d' = groupOf d"
proof (rule ext)
  fix n show "groupOf d' n = groupOf d n" by (simp only: groupOf_def assms)
qed

lemma keyOf_cong:
  assumes "nodeHeap d' = nodeHeap d" "ctxHeap d' = ctxHeap d"
  shows "keyOf d' = keyOf d"
proof (rule ext)
  fix n show "keyOf d' n = keyOf d n" by (simp only: keyOf_def groupOf_def assms)
qed

lemma idOf_cong:
  assumes "ctxHeap d' = ctxHeap d"
  shows "idOf d' = idOf d"
proof (rule ext)
  fix n show "idOf d' n = idOf d n" by (simp only: idOf_def assms)
qed

lemma nodeKey_cong:
  assumes "nodeHeap d' = nodeHeap d" "ctxHeap d' = ctxHeap d"
  shows "nodeKey d' = nodeKey d"
proof (rule ext)
  fix n show "nodeKey d' n = nodeKey d n" by (simp only: nodeKey_def keyOf_cong[OF assms])
qed

text \<open>Two nodes of the index share no context.\<close>

lemma inv_groups_disjoint:
  assumes "inv d" "n \<in> set (surbETAs d)" "m \<in> set (surbETAs d)"
    "p \<in> set (groupOf d n)" "p \<in> set (groupOf d m)"
  shows "n = m"
proof -
  from assms have "wfNode d n" "wfNode d m" by (auto simp: inv_def)
  with assms(4,5) show ?thesis by (fastforce simp: wfNode_def groupOf_def)
qed

text \<open>Distinct contexts of the index have distinct ids.\<close>

lemma inv_ids_injective:
  assumes "inv d" "p \<in> set (indexCtxs d)" "q \<in> set (indexCtxs d)" "idOf d p = idOf d q"
  shows "p = q"
proof -
  from inv_index_ctx[OF assms(1,2)] inv_index_ctx[OF assms(1,3)] assms(4)
  show ?thesis by (auto simp: idOf_def)
qed

text \<open>One step of the sweep: the first node of the index is removed with its group.\<close>

lemma inv_sweep_step:
  assumes i: "inv d" and t: "surbETAs d = n # rest"
    and g: "sweepGroup (groupOf d n) d k = Inr (d1, k1)"
  shows "inv (avlRemove n d1) \<and> surbETAs (avlRemove n d1) = rest \<and>
         nodeHeap (avlRemove n d1) = nodeHeap d \<and> ctxHeap (avlRemove n d1) = ctxHeap d \<and>
         k1 = k + length (groupOf d n) \<and>
         (\<forall>j. surbStore (avlRemove n d1) j =
                (if \<exists>p \<in> set (groupOf d n). idOf d p = Some j then None else surbStore d j))"
proof -
  let ?d2 = "avlRemove n d1"
  from sweepGroup_store[OF g] have d1: "d1 = d\<lparr>surbStore := surbStore d1\<rparr>"
    and k1: "k1 = k + length (groupOf d n)"
    and st: "\<And>j. surbStore d1 j =
                (if \<exists>p \<in> set (groupOf d n). idOf d p = Some j then None else surbStore d j)"
    by auto
  from i t have dist: "distinct (n # rest)" by (simp add: inv_def)
  have nh: "nodeHeap ?d2 = nodeHeap d" and ch: "ctxHeap ?d2 = ctxHeap d"
    and nt: "nodeTop ?d2 = nodeTop d" and ct: "ctxTop ?d2 = ctxTop d"
    by (subst d1, simp add: avlRemove_def)+
  have tr: "surbETAs ?d2 = rest"
    using dist t by (subst d1) (simp add: avlRemove_def)
  have ss: "\<And>j. surbStore ?d2 j =
                (if \<exists>p \<in> set (groupOf d n). idOf d p = Some j then None else surbStore d j)"
    using st by (simp add: avlRemove_def)
  have go: "groupOf ?d2 = groupOf d" using nh by (rule groupOf_cong)
  have ko: "keyOf ?d2 = keyOf d" using nh ch by (rule keyOf_cong)
  have io: "idOf ?d2 = idOf d" using ch by (rule idOf_cong)
  have nk: "nodeKey ?d2 = nodeKey d" using nh ch by (rule nodeKey_cong)
  have keep: "surbStore ?d2 (id' c) = Some q"
    if m: "m \<in> set rest" and q: "q \<in> set (groupOf d m)" and c: "ctxHeap d q = Some c"
      and s: "surbStore d (id' c) = Some q" for m q c
  proof -
    have "\<not> (\<exists>p \<in> set (groupOf d n). idOf d p = Some (id' c))"
    proof
      assume "\<exists>p \<in> set (groupOf d n). idOf d p = Some (id' c)"
      then obtain p where p: "p \<in> set (groupOf d n)" "idOf d p = Some (id' c)" by blast
      have pin: "p \<in> set (indexCtxs d)" using p(1) t by (auto simp: in_indexCtxs)
      have qin: "q \<in> set (indexCtxs d)" using q m t by (auto simp: in_indexCtxs)
      have "idOf d p = idOf d q" using p(2) c by (simp add: idOf_def)
      from inv_ids_injective[OF i pin qin this] have "p = q" .
      with p(1) q have "n = m"
        using inv_groups_disjoint[OF i, of n m q] t m by auto
      with m dist show False by simp
    qed
    with ss s show ?thesis by simp
  qed
  have wf: "wfNode ?d2 m" if m: "m \<in> set rest" for m
  proof -
    from i t m have w: "wfNode d m" by (simp add: inv_def)
    then obtain ps where ps: "nodeHeap d m = Some (CtxList ps)" "ps \<noteq> []"
      and mem: "\<forall>p \<in> set ps. \<exists>c. ctxHeap d p = Some c \<and> etaNode c = Some m \<and>
             surbStore d (id' c) = Some p \<and> keyOf d m = Some (eta c)"
      and lt: "m < nodeTop d"
      by (auto simp: wfNode_def)
    have gm: "groupOf d m = ps" using ps by (simp add: groupOf_def)
    show ?thesis
      unfolding wfNode_def nh ch nt ko
    proof (intro conjI exI[of _ ps] ballI)
      fix p assume p: "p \<in> set ps"
      with mem obtain c where c: "ctxHeap d p = Some c" "etaNode c = Some m"
          "surbStore d (id' c) = Some p" "keyOf d m = Some (eta c)" by blast
      from keep[OF m _ c(1) c(3)] p gm have "surbStore ?d2 (id' c) = Some p" by simp
      with c show "\<exists>c. ctxHeap d p = Some c \<and> etaNode c = Some m \<and>
             surbStore ?d2 (id' c) = Some p \<and> keyOf d m = Some (eta c)" by blast
    qed (use ps lt in auto)
  qed
  have sorted: "sorted_wrt (<) (map (nodeKey ?d2) (surbETAs ?d2))"
    using i t by (simp add: inv_def nk tr)
  have store: "p \<in> set (indexCtxs ?d2) \<and> idOf ?d2 p = Some j"
    if s: "surbStore ?d2 j = Some p" for j p
  proof -
    from s ss have nd: "\<not> (\<exists>p \<in> set (groupOf d n). idOf d p = Some j)"
      and sd: "surbStore d j = Some p" by (auto split: if_splits)
    from i sd have pin: "p \<in> set (indexCtxs d)" and pid: "idOf d p = Some j"
      by (auto simp: inv_def)
    from pin t obtain m where m: "m \<in> set (n # rest)" "p \<in> set (groupOf d m)"
      by (auto simp: in_indexCtxs)
    with nd pid have "m \<noteq> n" by auto
    with m have "m \<in> set rest" by simp
    with m(2) show ?thesis by (auto simp: in_indexCtxs tr go io pid)
  qed
  have bound: "\<forall>p. ctxHeap ?d2 p \<noteq> None \<longrightarrow> p < ctxTop ?d2"
    using i by (simp add: inv_def ch ct)
  have "inv ?d2"
    unfolding inv_def using dist tr wf sorted store bound by auto
  with tr nh ch k1 ss show ?thesis by blast
qed

section \<open>The sweep under the invariant\<close>

lemma expired_cong:
  assumes "nodeHeap d' = nodeHeap d" "ctxHeap d' = ctxHeap d"
  shows "expired now slack d' = expired now slack d"
proof (rule ext)
  fix n show "expired now slack d' n = expired now slack d n"
    by (simp only: expired_def keyOf_cong[OF assms])
qed

lemma sweepNodes_spec:
  assumes "inv d" "surbETAs d = ns"
  shows "\<exists>d'. sweepNodes now slack ns d k =
               Inr (d', k + length (concat (map (groupOf d) (takeWhile (expired now slack d) ns)))) \<and>
           inv d' \<and> surbETAs d' = dropWhile (expired now slack d) ns \<and>
           nodeHeap d' = nodeHeap d \<and> ctxHeap d' = ctxHeap d \<and>
           (\<forall>j. surbStore d' j =
              (if \<exists>p \<in> set (concat (map (groupOf d) (takeWhile (expired now slack d) ns))).
                    idOf d p = Some j
               then None else surbStore d j))"
  using assms
proof (induction ns arbitrary: d k)
  case Nil
  then show ?case by simp
next
  case (Cons n rest)
  from Cons.prems have w: "wfNode d n" by (simp add: inv_def)
  from wfNode_group[OF w] obtain p ps c where
    g: "groupOf d n = p # ps" and nh: "nodeHeap d n = Some (CtxList (p # ps))"
    and c: "ctxHeap d p = Some c" and key: "keyOf d n = Some (eta c)" by blast
  have nv: "nodeValue d n = Inr (CtxList (p # ps))" using nh by (simp add: nodeValue_def)
  have fe: "firstETA d (p # ps) = Inr (eta c)" using c by (simp add: firstETA_def derefCtx_def bindE_def)
  show ?case
  proof (cases "now <s eta c + slack")
    case True
    then have ne: "\<not> expired now slack d n" by (simp add: expired_def key)
    have "sweepNodes now slack (n # rest) d k = Inr (d, k)"
      using True nv fe by (simp add: bindE_def asCtxList_def)
    with ne Cons.prems show ?thesis by simp
  next
    case False
    then have ex: "expired now slack d n" by (simp add: expired_def key)
    have "\<forall>q \<in> set (groupOf d n). ctxHeap d q \<noteq> None"
      using w by (auto simp: wfNode_def groupOf_def)
    from sweepGroup_total[OF this, of k] obtain d1 where
      sg: "sweepGroup (groupOf d n) d k = Inr (d1, k + length (groupOf d n))" by blast
    let ?d2 = "avlRemove n d1"
    from inv_sweep_step[OF Cons.prems(1) Cons.prems(2) sg]
    have i2: "inv ?d2" and t2: "surbETAs ?d2 = rest"
      and nh2: "nodeHeap ?d2 = nodeHeap d" and ch2: "ctxHeap ?d2 = ctxHeap d"
      and s2: "\<And>j. surbStore ?d2 j =
                (if \<exists>p \<in> set (groupOf d n). idOf d p = Some j then None else surbStore d j)"
      by blast+
    have go: "groupOf ?d2 = groupOf d" using nh2 by (rule groupOf_cong)
    have io: "idOf ?d2 = idOf d" using ch2 by (rule idOf_cong)
    have eo: "expired now slack ?d2 = expired now slack d" using nh2 ch2 by (rule expired_cong)
    let ?sw = "concat (map (groupOf d) (takeWhile (expired now slack d) rest))"
    from Cons.IH[OF i2 t2, of "k + length (groupOf d n)"] obtain d' where
      r: "sweepNodes now slack rest ?d2 (k + length (groupOf d n)) =
            Inr (d', k + length (groupOf d n) + length ?sw)"
      and i': "inv d'" and t': "surbETAs d' = dropWhile (expired now slack d) rest"
      and nh': "nodeHeap d' = nodeHeap d" and ch': "ctxHeap d' = ctxHeap d"
      and s': "\<And>j. surbStore d' j =
              (if \<exists>p \<in> set ?sw. idOf d p = Some j then None else surbStore ?d2 j)"
      unfolding go io eo nh2 ch2 by blast
    have run: "sweepNodes now slack (n # rest) d k =
                 Inr (d', k + length (groupOf d n) + length ?sw)"
      using False nv fe sg r g by (simp add: bindE_def asCtxList_def)
    have tw: "takeWhile (expired now slack d) (n # rest) = n # takeWhile (expired now slack d) rest"
      and dw: "dropWhile (expired now slack d) (n # rest) = dropWhile (expired now slack d) rest"
      using ex by simp_all
    have st: "surbStore d' j =
              (if \<exists>p \<in> set (concat (map (groupOf d) (takeWhile (expired now slack d) (n # rest)))).
                    idOf d p = Some j
               then None else surbStore d j)" for j
      unfolding tw using s'[of j] s2[of j] by auto
    show ?thesis
      using run i' t' nh' ch' st unfolding tw dw
      by (intro exI[of _ d']) (simp add: add.assoc)
  qed
qed

lemma sweepSURBCtxs_spec:
  assumes "inv d"
  shows "\<exists>d'. sweepSURBCtxs now slack d = Inr (d', length (sweptCtxs now slack d)) \<and>
           inv d' \<and> surbETAs d' = dropWhile (expired now slack d) (surbETAs d) \<and>
           nodeHeap d' = nodeHeap d \<and> ctxHeap d' = ctxHeap d \<and>
           (\<forall>j. surbStore d' j =
              (if \<exists>p \<in> set (sweptCtxs now slack d). idOf d p = Some j
               then None else surbStore d j))"
proof (cases "surbETAs d = []")
  case True
  with assms show ?thesis by (simp add: sweepSURBCtxs_def sweptCtxs_def)
next
  case False
  from sweepNodes_spec[OF assms refl, of now slack 0] False show ?thesis
    by (simp add: sweepSURBCtxs_def sweptCtxs_def)
qed

lemma takeWhile_sorted_filter:
  assumes "sorted_wrt (<) (map f xs)" and "\<And>x y. x \<in> set xs \<Longrightarrow> y \<in> set xs \<Longrightarrow> f x < f y \<Longrightarrow> P y \<Longrightarrow> P x"
  shows "takeWhile P xs = filter P xs"
  using assms
proof (induction xs)
  case Nil
  then show ?case by simp
next
  case (Cons x xs)
  show ?case
  proof (cases "P x")
    case True
    have "sorted_wrt (<) (map f xs)" using Cons.prems(1) by simp
    moreover have "\<And>a b. a \<in> set xs \<Longrightarrow> b \<in> set xs \<Longrightarrow> f a < f b \<Longrightarrow> P b \<Longrightarrow> P a"
      using Cons.prems(2) by (meson list.set_intros(2))
    ultimately have "takeWhile P xs = filter P xs" by (rule Cons.IH)
    with True show ?thesis by simp
  next
    case False
    have "\<not> P y" if "y \<in> set xs" for y
    proof
      assume "P y"
      from Cons.prems(1) that have "f x < f y" by simp
      from Cons.prems(2)[OF _ _ this \<open>P y\<close>] that have "P x" by simp
      with False show False by simp
    qed
    then have "filter P xs = []" by (simp add: filter_empty_conv)
    with False show ?thesis by simp
  qed
qed

lemma swept_or_kept:
  assumes "inv d" "n \<in> set (surbETAs d)"
  shows "n \<in> set (takeWhile P (surbETAs d)) \<longleftrightarrow> n \<notin> set (dropWhile P (surbETAs d))"
proof -
  have "distinct (surbETAs d)" using assms(1) by (simp add: inv_def)
  then have "distinct (takeWhile P (surbETAs d) @ dropWhile P (surbETAs d))"
    by (simp only: takeWhile_dropWhile_id)
  then have dj: "set (takeWhile P (surbETAs d)) \<inter> set (dropWhile P (surbETAs d)) = {}"
    by (simp only: distinct_append)
  have "set (takeWhile P (surbETAs d)) \<union> set (dropWhile P (surbETAs d)) = set (surbETAs d)"
    by (metis set_append takeWhile_dropWhile_id)
  with dj assms(2) show ?thesis by blast
qed

text \<open>
  What a sweep does to a context of the index, in the arithmetic of the code: it stays
  when the test \<^verbatim>\<open>eta+slack > now\<close> holds for it.
\<close>

lemma sweep_keeps_unexpired:
  assumes i: "inv d" and r: "sweepSURBCtxs now slack d = Inr (d', k)"
    and p: "p \<in> set (indexCtxs d)" and c: "ctxHeap d p = Some c"
    and ne: "now <s eta c + slack"
  shows "p \<in> set (indexCtxs d') \<and> surbStore d' (id' c) = Some p \<and> ctxHeap d' p = Some c"
proof -
  from sweepSURBCtxs_spec[OF i, of now slack] r have
      t': "surbETAs d' = dropWhile (expired now slack d) (surbETAs d)"
    and nh': "nodeHeap d' = nodeHeap d" and ch': "ctxHeap d' = ctxHeap d"
    and s': "\<And>j. surbStore d' j =
              (if \<exists>p \<in> set (sweptCtxs now slack d). idOf d p = Some j
               then None else surbStore d j)"
    by auto
  from inv_index_ctx[OF i p] c obtain m where m: "m \<in> set (surbETAs d)" "p \<in> set (groupOf d m)"
    "surbStore d (id' c) = Some p" "keyOf d m = Some (eta c)" by auto
  have nex: "\<not> expired now slack d m" using ne m(4) by (simp add: expired_def)
  have "m \<notin> set (takeWhile (expired now slack d) (surbETAs d))"
    using nex by (auto dest: set_takeWhileD)
  with swept_or_kept[OF i m(1)] have md: "m \<in> set (surbETAs d')" by (simp add: t')
  have go: "groupOf d' = groupOf d" using nh' by (rule groupOf_cong)
  have 1: "p \<in> set (indexCtxs d')" using md m(2) by (auto simp: in_indexCtxs go)
  have "\<not> (\<exists>q \<in> set (sweptCtxs now slack d). idOf d q = Some (id' c))"
  proof
    assume "\<exists>q \<in> set (sweptCtxs now slack d). idOf d q = Some (id' c)"
    then obtain q where q: "q \<in> set (sweptCtxs now slack d)" "idOf d q = Some (id' c)" by blast
    from q(1) obtain m' where m': "m' \<in> set (takeWhile (expired now slack d) (surbETAs d))"
        "q \<in> set (groupOf d m')" by (auto simp: sweptCtxs_def)
    then have m'in: "m' \<in> set (surbETAs d)" by (auto dest: set_takeWhileD)
    then have qin: "q \<in> set (indexCtxs d)" using m'(2) by (auto simp: in_indexCtxs)
    have "idOf d q = idOf d p" using q(2) c by (simp add: idOf_def)
    from inv_ids_injective[OF i qin p this] have "q = p" .
    with m'(2) m(2) have "m' = m" using inv_groups_disjoint[OF i m'in m(1)] by simp
    with m'(1) nex show False by (auto dest: set_takeWhileD)
  qed
  with s'[of "id' c"] m(3) have 2: "surbStore d' (id' c) = Some p" by simp
  from 1 2 c ch' show ?thesis by simp
qed

lemma sweep_removes_expired:
  assumes i: "inv d" and nw: "noWrap slack d" and r: "sweepSURBCtxs now slack d = Inr (d', k)"
    and p: "p \<in> set (indexCtxs d)" and c: "ctxHeap d p = Some c"
    and e: "\<not> now <s eta c + slack"
  shows "p \<notin> set (indexCtxs d') \<and> surbStore d' (id' c) = None \<and> p \<in> set (sweptCtxs now slack d)"
proof -
  from sweepSURBCtxs_spec[OF i, of now slack] r have
      t': "surbETAs d' = dropWhile (expired now slack d) (surbETAs d)"
    and nh': "nodeHeap d' = nodeHeap d" and ch': "ctxHeap d' = ctxHeap d"
    and s': "\<And>j. surbStore d' j =
              (if \<exists>p \<in> set (sweptCtxs now slack d). idOf d p = Some j
               then None else surbStore d j)"
    by auto
  from inv_index_ctx[OF i p] c obtain m where m: "m \<in> set (surbETAs d)" "p \<in> set (groupOf d m)"
    "surbStore d (id' c) = Some p" "keyOf d m = Some (eta c)" by auto
  have ex: "expired now slack d m" using e m(4) by (simp add: expired_def)
  have key: "\<exists>q cq. q \<in> set (indexCtxs d) \<and> ctxHeap d q = Some cq \<and> keyOf d a = Some (eta cq)"
    if "a \<in> set (surbETAs d)" for a
  proof -
    from i that have "wfNode d a" by (simp add: inv_def)
    from wfNode_group[OF this] obtain q qs cq where
      "groupOf d a = q # qs" "ctxHeap d q = Some cq" "keyOf d a = Some (eta cq)" by blast
    moreover from this that have "q \<in> set (indexCtxs d)"
      unfolding in_indexCtxs by (intro bexI[of _ a]) simp_all
    ultimately show ?thesis by blast
  qed
  have mono: "expired now slack d a"
    if a: "a \<in> set (surbETAs d)" and b: "b \<in> set (surbETAs d)"
      and lt: "nodeKey d a < nodeKey d b" and eb: "expired now slack d b" for a b
  proof -
    from key[OF a] obtain qa ca where qa: "qa \<in> set (indexCtxs d)" "ctxHeap d qa = Some ca"
      "keyOf d a = Some (eta ca)" by blast
    from key[OF b] obtain qb cb where qb: "qb \<in> set (indexCtxs d)" "ctxHeap d qb = Some cb"
      "keyOf d b = Some (eta cb)" by blast
    from nw qa have wa: "sint (eta ca + slack) = sint (eta ca) + sint slack" by (auto simp: noWrap_def)
    from nw qb have wb: "sint (eta cb + slack) = sint (eta cb) + sint slack" by (auto simp: noWrap_def)
    from lt qa(3) qb(3) have "sint (eta ca) < sint (eta cb)" by (simp add: nodeKey_def)
    moreover from eb qb(3) have "sint (eta cb) + sint slack \<le> sint now"
      by (simp add: expired_def word_sless_alt wb)
    ultimately show ?thesis using qa(3) by (simp add: expired_def word_sless_alt wa)
  qed
  have "sorted_wrt (<) (map (nodeKey d) (surbETAs d))" using i by (simp add: inv_def)
  from takeWhile_sorted_filter[OF this, of "expired now slack d"] mono
  have "takeWhile (expired now slack d) (surbETAs d) = filter (expired now slack d) (surbETAs d)"
    by blast
  with ex m(1) have mt: "m \<in> set (takeWhile (expired now slack d) (surbETAs d))" by simp
  then have sw: "p \<in> set (sweptCtxs now slack d)" using m(2) by (auto simp: sweptCtxs_def)
  have "idOf d p = Some (id' c)" using c by (simp add: idOf_def)
  with sw s'[of "id' c"] have 2: "surbStore d' (id' c) = None" by auto
  have go: "groupOf d' = groupOf d" using nh' by (rule groupOf_cong)
  have 1: "p \<notin> set (indexCtxs d')"
  proof
    assume "p \<in> set (indexCtxs d')"
    then obtain m' where m': "m' \<in> set (dropWhile (expired now slack d) (surbETAs d))"
      "p \<in> set (groupOf d m')" by (auto simp: in_indexCtxs t' go)
    then have m'in: "m' \<in> set (surbETAs d)" by (auto dest: set_dropWhileD)
    from inv_groups_disjoint[OF i m'in m(1) m'(2) m(2)] have "m' = m" .
    with m'(1) mt swept_or_kept[OF i m(1)] show False by simp
  qed
  from 1 2 sw show ?thesis by simp
qed

lemma sweep_index:
  assumes i: "inv d" and r: "sweepSURBCtxs now slack d = Inr (d', k)"
  shows "indexCtxs d = sweptCtxs now slack d @ indexCtxs d' \<and> k = length (sweptCtxs now slack d)"
proof -
  from sweepSURBCtxs_spec[OF i, of now slack] r have
      t': "surbETAs d' = dropWhile (expired now slack d) (surbETAs d)"
    and nh': "nodeHeap d' = nodeHeap d" and k: "k = length (sweptCtxs now slack d)"
    by auto
  have go: "groupOf d' = groupOf d" using nh' by (rule groupOf_cong)
  have "indexCtxs d = concat (map (groupOf d)
          (takeWhile (expired now slack d) (surbETAs d) @ dropWhile (expired now slack d) (surbETAs d)))"
    by (simp add: indexCtxs_def)
  also have "\<dots> = sweptCtxs now slack d @ indexCtxs d'"
    unfolding map_append concat_append by (simp add: sweptCtxs_def indexCtxs_def t' go)
  finally show ?thesis using k by simp
qed

section \<open>Storing under the invariant\<close>

lemma sless_antisym: "\<not> a <s b \<Longrightarrow> \<not> b <s a \<Longrightarrow> a = (b :: 'a::len word)"
  by (simp add: word_sless_alt not_less) (metis antisym signed_word_eqI)

lemma avlSearch_spec:
  assumes "\<forall>n \<in> set ns. wfNode d n" and "sorted_wrt (<) (map (nodeKey d) ns)"
    and "ctxHeap d p = Some c"
    and "\<forall>a \<in> set acc. nodeKey d a < sint (eta c)"
  shows "\<exists>before found after.
           avlSearch d (CtxList [p]) acc ns = Inr (before, found, after) \<and>
           acc @ ns = before @ (case found of None \<Rightarrow> [] | Some n \<Rightarrow> [n]) @ after \<and>
           (\<forall>a \<in> set before. nodeKey d a < sint (eta c)) \<and>
           (\<forall>b \<in> set after. sint (eta c) < nodeKey d b) \<and>
           (\<forall>n. found = Some n \<longrightarrow> keyOf d n = Some (eta c))"
  using assms
proof (induction ns arbitrary: acc)
  case Nil
  then show ?case by simp
next
  case (Cons n ns)
  from Cons.prems(1) have w: "wfNode d n" by simp
  from wfNode_group[OF w] obtain q qs cq where
    nh: "nodeHeap d n = Some (CtxList (q # qs))"
    and cq: "ctxHeap d q = Some cq" and key: "keyOf d n = Some (eta cq)" by blast
  have nk: "nodeKey d n = sint (eta cq)" by (simp add: nodeKey_def key)
  have cmp: "cmpETA d (CtxList [p]) (CtxList (q # qs)) =
               (if eta c <s eta cq then Inr (-1) else if eta cq <s eta c then Inr 1 else Inr 0)"
    using Cons.prems(3) cq
    by (simp add: cmpETA_def asCtxList_def firstETA_def derefCtx_def bindE_def)
  have nv: "nodeValue d n = Inr (CtxList (q # qs))" using nh by (simp add: nodeValue_def)
  consider (lt) "eta c <s eta cq" | (gt) "\<not> eta c <s eta cq" "eta cq <s eta c"
    | (eq) "\<not> eta c <s eta cq" "\<not> eta cq <s eta c" by blast
  then show ?case
  proof cases
    case lt
    have r: "avlSearch d (CtxList [p]) acc (n # ns) = Inr (acc, None, n # ns)"
      using lt nv cmp by (simp add: bindE_def)
    have "\<forall>b \<in> set (n # ns). sint (eta c) < nodeKey d b"
      using lt Cons.prems(2) nk by (auto simp: word_sless_alt)
    with r Cons.prems(4) show ?thesis by simp
  next
    case gt
    have r: "avlSearch d (CtxList [p]) acc (n # ns) = avlSearch d (CtxList [p]) (acc @ [n]) ns"
      using gt nv cmp by (simp add: bindE_def)
    have a: "\<forall>a \<in> set (acc @ [n]). nodeKey d a < sint (eta c)"
      using gt Cons.prems(4) nk by (auto simp: word_sless_alt)
    have "\<forall>n \<in> set ns. wfNode d n" "sorted_wrt (<) (map (nodeKey d) ns)"
      using Cons.prems by simp_all
    from Cons.IH[OF this Cons.prems(3) a] r show ?thesis by simp
  next
    case eq
    then have e: "eta c = eta cq" by (rule sless_antisym)
    have r: "avlSearch d (CtxList [p]) acc (n # ns) = Inr (acc, Some n, ns)"
      using eq nv cmp by (simp add: bindE_def)
    have "\<forall>b \<in> set ns. sint (eta c) < nodeKey d b"
      using Cons.prems(2) nk e by auto
    with r Cons.prems(4) key e show ?thesis by simp
  qed
qed

lemma inv_fresh_ctx: "inv d \<Longrightarrow> ctxHeap d (ctxTop d) = None"
  by (auto simp: inv_def)

lemma inv_member_allocated:
  assumes "inv d" "m \<in> set (surbETAs d)" "q \<in> set (groupOf d m)"
  shows "q \<noteq> ctxTop d \<and> ctxHeap d q \<noteq> None"
proof -
  from assms have "q \<in> set (indexCtxs d)" by (auto simp: in_indexCtxs)
  from inv_index_ctx[OF assms(1) this] inv_fresh_ctx[OF assms(1)] show ?thesis by auto
qed

lemma inv_fresh_id:
  assumes "inv d" "surbStore d i = None" "q \<in> set (indexCtxs d)" "ctxHeap d q = Some cq"
  shows "id' cq \<noteq> i"
  using inv_index_ctx[OF assms(1,3)] assms(2,4) by auto

text \<open>Storing into an existing node of the index.\<close>

lemma inv_store_existing:
  assumes i: "inv d" and fr: "surbStore d i = None"
    and n: "n \<in> set (surbETAs d)" and key: "keyOf d n = Some e"
    and p: "p = ctxTop d"
    and t': "surbETAs d' = surbETAs d"
    and nh': "nodeHeap d' = (nodeHeap d)(n \<mapsto> CtxList (groupOf d n @ [p]))"
    and ch': "ctxHeap d' = (ctxHeap d)(p \<mapsto> \<lparr>id' = i, eta = e, sprpKey = k, etaNode = Some n\<rparr>)"
    and s': "surbStore d' = (surbStore d)(i \<mapsto> p)"
    and nt': "nodeTop d' = nodeTop d" and ct': "ctxTop d' = Suc p"
  shows "inv d' \<and> set (indexCtxs d') = insert p (set (indexCtxs d))"
proof -
  have g': "groupOf d' m = (if m = n then groupOf d n @ [p] else groupOf d m)" for m
    by (simp add: groupOf_def nh')
  have old: "q \<noteq> p \<and> ctxHeap d' q = ctxHeap d q"
    if "m \<in> set (surbETAs d)" "q \<in> set (groupOf d m)" for m q
    using inv_member_allocated[OF i that] by (simp add: ch' p)
  have wfd: "wfNode d m" if "m \<in> set (surbETAs d)" for m using i that by (simp add: inv_def)
  have k': "keyOf d' m = keyOf d m" if m: "m \<in> set (surbETAs d)" for m
  proof -
    from wfNode_group[OF wfd[OF m]] obtain q qs where q: "groupOf d m = q # qs" by blast
    then have "q \<in> set (groupOf d m)" by simp
    from old[OF m this] q show ?thesis by (cases "m = n") (simp_all add: keyOf_def g')
  qed
  have nk': "nodeKey d' m = nodeKey d m" if m: "m \<in> set (surbETAs d)" for m
    by (simp add: nodeKey_def k'[OF m])
  have ix: "set (indexCtxs d') = insert p (set (indexCtxs d))"
    using n by (auto simp: in_indexCtxs t' g' split: if_splits)
  have wf': "wfNode d' m" if m: "m \<in> set (surbETAs d)" for m
  proof -
    from wfd[OF m] obtain ps where ps: "nodeHeap d m = Some (CtxList ps)" "ps \<noteq> []"
      and mem: "\<forall>q \<in> set ps. \<exists>c. ctxHeap d q = Some c \<and> etaNode c = Some m \<and>
             surbStore d (id' c) = Some q \<and> keyOf d m = Some (eta c)"
      and lt: "m < nodeTop d"
      by (auto simp: wfNode_def)
    have gm: "groupOf d m = ps" using ps by (simp add: groupOf_def)
    have memo: "\<exists>c. ctxHeap d' q = Some c \<and> etaNode c = Some m \<and>
             surbStore d' (id' c) = Some q \<and> keyOf d' m = Some (eta c)" if q: "q \<in> set ps" for q
    proof -
      from mem q obtain c where c: "ctxHeap d q = Some c" "etaNode c = Some m"
        "surbStore d (id' c) = Some q" "keyOf d m = Some (eta c)" by blast
      have "id' c \<noteq> i" using c(3) fr by auto
      with c old[OF m, of q] q gm k'[OF m] show ?thesis by (simp add: s')
    qed
    show ?thesis
    proof (cases "m = n")
      case False
      then have "nodeHeap d' m = Some (CtxList ps)" using ps by (simp add: nh')
      with ps(2) memo lt show ?thesis by (auto simp: wfNode_def nt')
    next
      case True
      then have h: "nodeHeap d' m = Some (CtxList (ps @ [p]))" using gm by (simp add: nh')
      have "\<exists>c. ctxHeap d' p = Some c \<and> etaNode c = Some m \<and>
             surbStore d' (id' c) = Some p \<and> keyOf d' m = Some (eta c)"
        using True key k'[OF m] by (simp add: ch' s')
      with h memo lt show ?thesis by (auto simp: wfNode_def nt')
    qed
  qed
  have sorted: "sorted_wrt (<) (map (nodeKey d') (surbETAs d'))"
  proof -
    have eq: "map (nodeKey d') (surbETAs d) = map (nodeKey d) (surbETAs d)"
      by (rule map_cong[OF refl nk'])
    have "sorted_wrt (<) (map (nodeKey d) (surbETAs d))" using i by (simp add: inv_def)
    then show ?thesis unfolding t' eq .
  qed
  have store: "q \<in> set (indexCtxs d') \<and> idOf d' q = Some j" if s: "surbStore d' j = Some q" for j q
  proof (cases "j = i")
    case True
    with s have "q = p" by (simp add: s')
    with True show ?thesis by (simp add: ix idOf_def ch')
  next
    case False
    with s have sd: "surbStore d j = Some q" by (simp add: s')
    with i have qi: "q \<in> set (indexCtxs d)" and qid: "idOf d q = Some j" by (auto simp: inv_def)
    from inv_index_ctx[OF i qi] inv_fresh_ctx[OF i] have "q \<noteq> p" by (auto simp: p)
    with qi qid show ?thesis by (simp add: ix idOf_def ch')
  qed
  have bound: "\<forall>q. ctxHeap d' q \<noteq> None \<longrightarrow> q < ctxTop d'"
    using i by (auto simp: inv_def ch' ct' p less_Suc_eq)
  have "distinct (surbETAs d')" using i by (simp add: inv_def t')
  with wf' sorted store bound have "inv d'" unfolding inv_def by (auto simp: t')
  with ix show ?thesis by simp
qed

text \<open>Storing into a new node of the index.\<close>

lemma inv_store_new:
  assumes i: "inv d" and fr: "surbStore d i = None"
    and sp: "surbETAs d = before @ after"
    and bk: "\<forall>a \<in> set before. nodeKey d a < sint e"
    and ak: "\<forall>b \<in> set after. sint e < nodeKey d b"
    and p: "p = ctxTop d" and n: "n = nodeTop d"
    and t': "surbETAs d' = before @ n # after"
    and nh': "nodeHeap d' = (nodeHeap d)(n \<mapsto> CtxList [p])"
    and ch': "ctxHeap d' = (ctxHeap d)(p \<mapsto> \<lparr>id' = i, eta = e, sprpKey = k, etaNode = Some n\<rparr>)"
    and s': "surbStore d' = (surbStore d)(i \<mapsto> p)"
    and nt': "nodeTop d' = Suc n" and ct': "ctxTop d' = Suc p"
  shows "inv d' \<and> set (indexCtxs d') = insert p (set (indexCtxs d))"
proof -
  have wfd: "wfNode d m" if "m \<in> set (surbETAs d)" for m using i that by (simp add: inv_def)
  have nn: "m \<noteq> n" if "m \<in> set (surbETAs d)" for m
    using wfd[OF that] by (auto simp: wfNode_def n)
  have g': "groupOf d' m = groupOf d m" if "m \<in> set (surbETAs d)" for m
    using nn[OF that] by (simp add: groupOf_def nh')
  have gn: "groupOf d' n = [p]" by (simp add: groupOf_def nh')
  have old: "q \<noteq> p \<and> ctxHeap d' q = ctxHeap d q"
    if "m \<in> set (surbETAs d)" "q \<in> set (groupOf d m)" for m q
    using inv_member_allocated[OF i that] by (simp add: ch' p)
  have k': "keyOf d' m = keyOf d m" if m: "m \<in> set (surbETAs d)" for m
  proof -
    from wfNode_group[OF wfd[OF m]] obtain q qs where q: "groupOf d m = q # qs" by blast
    then have "q \<in> set (groupOf d m)" by simp
    from old[OF m this] q show ?thesis by (simp add: keyOf_def g'[OF m])
  qed
  have kn: "keyOf d' n = Some e" by (simp add: keyOf_def gn ch')
  have nk': "nodeKey d' m = nodeKey d m" if m: "m \<in> set (surbETAs d)" for m
    by (simp add: nodeKey_def k'[OF m])
  have nkn: "nodeKey d' n = sint e" by (simp add: nodeKey_def kn)
  have ix: "set (indexCtxs d') = insert p (set (indexCtxs d))"
  proof (intro set_eqI iffI)
    fix q assume "q \<in> set (indexCtxs d')"
    then obtain m where m: "m \<in> set (before @ n # after)" "q \<in> set (groupOf d' m)"
      by (auto simp: in_indexCtxs t')
    show "q \<in> insert p (set (indexCtxs d))"
    proof (cases "m = n")
      case True with m gn show ?thesis by simp
    next
      case False
      with m(1) have "m \<in> set (surbETAs d)" by (auto simp: sp)
      with m(2) g' show ?thesis by (auto simp: in_indexCtxs)
    qed
  next
    fix q assume "q \<in> insert p (set (indexCtxs d))"
    then consider "q = p" | "q \<in> set (indexCtxs d)" by auto
    then show "q \<in> set (indexCtxs d')"
    proof cases
      case 1
      then have "q \<in> set (groupOf d' n)" by (simp add: gn)
      then show ?thesis unfolding in_indexCtxs t' by (intro bexI[of _ n]) simp_all
    next
      case 2
      then obtain m where m: "m \<in> set (surbETAs d)" "q \<in> set (groupOf d m)"
        by (auto simp: in_indexCtxs)
      then have "q \<in> set (groupOf d' m)" by (simp add: g')
      moreover have "m \<in> set (before @ n # after)" using m(1) by (auto simp: sp)
      ultimately show ?thesis unfolding in_indexCtxs t' by blast
    qed
  qed
  have wf': "wfNode d' m" if m: "m \<in> set (surbETAs d)" for m
  proof -
    from wfd[OF m] obtain ps where ps: "nodeHeap d m = Some (CtxList ps)" "ps \<noteq> []"
      and mem: "\<forall>q \<in> set ps. \<exists>c. ctxHeap d q = Some c \<and> etaNode c = Some m \<and>
             surbStore d (id' c) = Some q \<and> keyOf d m = Some (eta c)"
      and lt: "m < nodeTop d"
      by (auto simp: wfNode_def)
    have gm: "groupOf d m = ps" using ps by (simp add: groupOf_def)
    have memo: "\<exists>c. ctxHeap d' q = Some c \<and> etaNode c = Some m \<and>
             surbStore d' (id' c) = Some q \<and> keyOf d' m = Some (eta c)" if q: "q \<in> set ps" for q
    proof -
      from mem q obtain c where c: "ctxHeap d q = Some c" "etaNode c = Some m"
        "surbStore d (id' c) = Some q" "keyOf d m = Some (eta c)" by blast
      have "id' c \<noteq> i" using c(3) fr by auto
      with c old[OF m, of q] q gm k'[OF m] show ?thesis by (simp add: s')
    qed
    have "nodeHeap d' m = Some (CtxList ps)" using ps nn[OF m] by (simp add: nh')
    with ps(2) memo lt show ?thesis by (auto simp: wfNode_def nt' n)
  qed
  have wfn: "wfNode d' n"
    by (simp add: wfNode_def nt' nh' ch' s' kn)
  have sorted: "sorted_wrt (<) (map (nodeKey d') (surbETAs d'))"
  proof -
    have b: "map (nodeKey d') before = map (nodeKey d) before"
      by (rule map_cong[OF refl nk']) (simp add: sp)
    have a: "map (nodeKey d') after = map (nodeKey d) after"
      by (rule map_cong[OF refl nk']) (simp add: sp)
    have "sorted_wrt (<) (map (nodeKey d) before @ map (nodeKey d) after)"
      using i by (simp add: inv_def sp)
    then have "sorted_wrt (<) (map (nodeKey d) before @ sint e # map (nodeKey d) after)"
      using bk ak by (auto simp: sorted_wrt_append)
    then show ?thesis unfolding t' map_append list.map a b nkn .
  qed
  have store: "q \<in> set (indexCtxs d') \<and> idOf d' q = Some j" if s: "surbStore d' j = Some q" for j q
  proof (cases "j = i")
    case True
    with s have "q = p" by (simp add: s')
    with True show ?thesis by (simp add: ix idOf_def ch')
  next
    case False
    with s have sd: "surbStore d j = Some q" by (simp add: s')
    with i have qi: "q \<in> set (indexCtxs d)" and qid: "idOf d q = Some j" by (auto simp: inv_def)
    from inv_index_ctx[OF i qi] inv_fresh_ctx[OF i] have "q \<noteq> p" by (auto simp: p)
    with qi qid show ?thesis by (simp add: ix idOf_def ch')
  qed
  have bound: "\<forall>q. ctxHeap d' q \<noteq> None \<longrightarrow> q < ctxTop d'"
    using i by (auto simp: inv_def ch' ct' p less_Suc_eq)
  have "distinct (surbETAs d')" using i nn by (auto simp: inv_def t' sp)
  with wf' wfn sorted store bound have "inv d'" unfolding inv_def by (auto simp: t' sp)
  with ix show ?thesis by simp
qed

text \<open>Allocating a context changes nothing for the index and the store.\<close>

lemma inv_alloc:
  assumes i: "inv d" and d1_def: "d1 = snd (newSurbCtx j e k d)"
  shows "inv d1 \<and> (\<forall>m \<in> set (surbETAs d). keyOf d1 m = keyOf d m \<and> groupOf d1 m = groupOf d m)"
proof -
  let ?p = "ctxTop d"
  have f: "surbETAs d1 = surbETAs d" "nodeHeap d1 = nodeHeap d" "surbStore d1 = surbStore d"
    "nodeTop d1 = nodeTop d" "ctxTop d1 = Suc ?p"
    "ctxHeap d1 = (ctxHeap d)(?p \<mapsto> \<lparr>id' = j, eta = e, sprpKey = k, etaNode = None\<rparr>)"
    by (simp_all add: d1_def newSurbCtx_eq)
  have go: "groupOf d1 = groupOf d" using f(2) by (rule groupOf_cong)
  have ic: "indexCtxs d1 = indexCtxs d" by (simp add: indexCtxs_def go f)
  have old: "q \<noteq> ?p \<and> ctxHeap d1 q = ctxHeap d q"
    if "m \<in> set (surbETAs d)" "q \<in> set (groupOf d m)" for m q
    using inv_member_allocated[OF i that] by (simp add: f)
  have wfd: "wfNode d m" if "m \<in> set (surbETAs d)" for m using i that by (simp add: inv_def)
  have k': "keyOf d1 m = keyOf d m" if m: "m \<in> set (surbETAs d)" for m
  proof -
    from wfNode_group[OF wfd[OF m]] obtain q qs where q: "groupOf d m = q # qs" by blast
    then have "q \<in> set (groupOf d m)" by simp
    from old[OF m this] q show ?thesis by (simp add: keyOf_def go)
  qed
  have nk': "nodeKey d1 m = nodeKey d m" if m: "m \<in> set (surbETAs d)" for m
    by (simp add: nodeKey_def k'[OF m])
  have wf': "wfNode d1 m" if m: "m \<in> set (surbETAs d)" for m
  proof -
    from wfd[OF m] obtain ps where ps: "nodeHeap d m = Some (CtxList ps)" "ps \<noteq> []"
      and mem: "\<forall>q \<in> set ps. \<exists>c. ctxHeap d q = Some c \<and> etaNode c = Some m \<and>
             surbStore d (id' c) = Some q \<and> keyOf d m = Some (eta c)"
      and lt: "m < nodeTop d"
      by (auto simp: wfNode_def)
    have gm: "groupOf d m = ps" using ps by (simp add: groupOf_def)
    have memo: "\<exists>c. ctxHeap d1 q = Some c \<and> etaNode c = Some m \<and>
             surbStore d1 (id' c) = Some q \<and> keyOf d1 m = Some (eta c)" if q: "q \<in> set ps" for q
    proof -
      from mem q obtain c where c: "ctxHeap d q = Some c" "etaNode c = Some m"
        "surbStore d (id' c) = Some q" "keyOf d m = Some (eta c)" by blast
      with old[OF m, of q] q gm k'[OF m] show ?thesis by (simp add: f(3))
    qed
    with ps lt show ?thesis by (auto simp: wfNode_def f(2,4))
  qed
  have sorted: "sorted_wrt (<) (map (nodeKey d1) (surbETAs d1))"
  proof -
    have eq: "map (nodeKey d1) (surbETAs d) = map (nodeKey d) (surbETAs d)"
      by (rule map_cong[OF refl nk'])
    have "sorted_wrt (<) (map (nodeKey d) (surbETAs d))" using i by (simp add: inv_def)
    then show ?thesis unfolding f(1) eq .
  qed
  have store: "q \<in> set (indexCtxs d1) \<and> idOf d1 q = Some l" if s: "surbStore d1 l = Some q" for l q
  proof -
    from s i have qi: "q \<in> set (indexCtxs d)" and qid: "idOf d q = Some l"
      by (auto simp: inv_def f(3))
    from inv_index_ctx[OF i qi] inv_fresh_ctx[OF i] have "q \<noteq> ?p" by auto
    with qi qid show ?thesis by (simp add: ic idOf_def f(6))
  qed
  have bound: "\<forall>q. ctxHeap d1 q \<noteq> None \<longrightarrow> q < ctxTop d1"
    using i by (auto simp: inv_def f less_Suc_eq)
  have "distinct (surbETAs d1)" using i by (simp add: inv_def f(1))
  with wf' sorted store bound have "inv d1" unfolding inv_def by (auto simp: f(1))
  with k' go show ?thesis by simp
qed

lemma inv_store:
  assumes i: "inv d" and fr: "surbStore d j = None"
  shows "\<exists>d' n. applyOp (Store j e k) d = Inr d' \<and> inv d' \<and>
           set (indexCtxs d') = insert (ctxTop d) (set (indexCtxs d)) \<and>
           surbStore d' = (surbStore d)(j \<mapsto> ctxTop d) \<and>
           ctxHeap d' = (ctxHeap d)(ctxTop d \<mapsto> \<lparr>id' = j, eta = e, sprpKey = k, etaNode = Some n\<rparr>) \<and>
           calls d' = calls d"
proof -
  let ?p = "ctxTop d"
  let ?c0 = "\<lparr>id' = j, eta = e, sprpKey = k, etaNode = None\<rparr>"
  define d1 where "d1 = snd (newSurbCtx j e k d)"
  have f: "surbETAs d1 = surbETAs d" "nodeHeap d1 = nodeHeap d" "surbStore d1 = surbStore d"
    "nodeTop d1 = nodeTop d" "ctxTop d1 = Suc ?p" "calls d1 = calls d"
    "ctxHeap d1 = (ctxHeap d)(?p \<mapsto> ?c0)"
    by (simp_all add: d1_def newSurbCtx_eq)
  have ap: "applyOp (Store j e k) d = storeSURBCtx ?p d1"
    by (simp add: d1_def newSurbCtx_eq)
  from inv_alloc[OF i d1_def] have i1: "inv d1"
    and same: "\<And>m. m \<in> set (surbETAs d) \<Longrightarrow> keyOf d1 m = keyOf d m \<and> groupOf d1 m = groupOf d m"
    by auto
  have nks: "nodeKey d1 m = nodeKey d m" if "m \<in> set (surbETAs d)" for m
    using same[OF that] by (simp add: nodeKey_def)
  have c0: "ctxHeap d1 ?p = Some ?c0" by (simp add: f)
  have wf1: "\<forall>n \<in> set (surbETAs d1). wfNode d1 n"
    and so1: "sorted_wrt (<) (map (nodeKey d1) (surbETAs d1))"
    using i1 by (simp_all add: inv_def)
  from avlSearch_spec[OF wf1 so1 c0, of "[]"] obtain before found after where
    sr: "avlSearch d1 (CtxList [?p]) [] (surbETAs d1) = Inr (before, found, after)"
    and sp: "surbETAs d1 = before @ (case found of None \<Rightarrow> [] | Some n \<Rightarrow> [n]) @ after"
    and bk: "\<forall>a \<in> set before. nodeKey d1 a < sint e"
    and ak: "\<forall>b \<in> set after. sint e < nodeKey d1 b"
    and fk: "\<forall>n. found = Some n \<longrightarrow> keyOf d1 n = Some e"
    by auto
  show ?thesis
  proof (cases found)
    case None
    let ?n = "nodeTop d"
    define d' where "d' = d1\<lparr>surbETAs := before @ ?n # after,
                              nodeHeap := (nodeHeap d1)(?n \<mapsto> CtxList [?p]),
                              nodeTop := Suc ?n,
                              ctxHeap := (ctxHeap d1)(?p \<mapsto> ?c0\<lparr>etaNode := Some ?n\<rparr>),
                              surbStore := (surbStore d1)(j \<mapsto> ?p)\<rparr>"
    have run: "storeSURBCtx ?p d1 = Inr d'"
      using sr None c0
      by (simp add: storeSURBCtx_def avlInsert_def bindE_def Let_def setEtaNode_def derefCtx_def
            nodeValue_def asCtxList_def f d'_def)
    have sp': "surbETAs d = before @ after" using sp None by (simp add: f)
    have bk': "\<forall>a \<in> set before. nodeKey d a < sint e"
      using bk nks by (auto simp: sp')
    have ak': "\<forall>b \<in> set after. sint e < nodeKey d b"
      using ak nks by (auto simp: sp')
    have "inv d' \<and> set (indexCtxs d') = insert ?p (set (indexCtxs d))"
      by (rule inv_store_new[OF i fr sp' bk' ak' refl refl, of d' k])
         (simp_all add: d'_def f)
    moreover have "surbStore d' = (surbStore d)(j \<mapsto> ?p)" "calls d' = calls d"
      "ctxHeap d' = (ctxHeap d)(?p \<mapsto> \<lparr>id' = j, eta = e, sprpKey = k, etaNode = Some ?n\<rparr>)"
      by (simp_all add: d'_def f)
    ultimately show ?thesis using run ap by auto
  next
    case (Some n)
    have nin: "n \<in> set (surbETAs d)" using sp Some by (simp add: f)
    have key: "keyOf d n = Some e" using fk Some same[OF nin] by simp
    from i nin have "wfNode d n" by (simp add: inv_def)
    from wfNode_group[OF this] obtain q qs where
      g: "groupOf d n = q # qs" and nh: "nodeHeap d n = Some (CtxList (q # qs))" by blast
    have "q \<in> set (groupOf d n)" using g by simp
    from inv_member_allocated[OF i nin this] have qp: "q \<noteq> ?p" by simp
    define d' where "d' = d1\<lparr>ctxHeap := (ctxHeap d1)(?p \<mapsto> ?c0\<lparr>etaNode := Some n\<rparr>),
                              nodeHeap := (nodeHeap d1)(n \<mapsto> CtxList ((q # qs) @ [?p])),
                              surbStore := (surbStore d1)(j \<mapsto> ?p)\<rparr>"
    have run: "storeSURBCtx ?p d1 = Inr d'"
      using sr Some c0 nh qp
      by (simp add: storeSURBCtx_def avlInsert_def bindE_def Let_def setEtaNode_def derefCtx_def
            nodeValue_def asCtxList_def setValue_def f d'_def)
    have "inv d' \<and> set (indexCtxs d') = insert ?p (set (indexCtxs d))"
      by (rule inv_store_existing[OF i fr nin key refl, of d' k])
         (simp_all add: d'_def f g)
    moreover have "surbStore d' = (surbStore d)(j \<mapsto> ?p)" "calls d' = calls d"
      "ctxHeap d' = (ctxHeap d)(?p \<mapsto> \<lparr>id' = j, eta = e, sprpKey = k, etaNode = Some n\<rparr>)"
      by (simp_all add: d'_def f)
    ultimately show ?thesis using run ap by auto
  qed
qed

section \<open>Taking by id under the invariant\<close>

lemma take_miss: "surbStore d i = None \<Longrightarrow> loadAndDeleteSURBCtx i d = Inr (None, d)"
  by (simp add: loadAndDeleteSURBCtx_def)

text \<open>Taking a context that is alone in its node: the node leaves the index.\<close>

lemma inv_take_alone:
  assumes i: "inv d" and s: "surbStore d j = Some p" and c: "ctxHeap d p = Some c"
    and en: "etaNode c = Some n" and g: "groupOf d n = [p]"
  shows "\<exists>d'. loadAndDeleteSURBCtx j d = Inr (Some p, d') \<and> inv d' \<and>
           surbStore d' = (surbStore d)(j := None) \<and>
           ctxHeap d' = (ctxHeap d)(p \<mapsto> c\<lparr>etaNode := None\<rparr>) \<and>
           set (indexCtxs d') = set (indexCtxs d) - {p} \<and> calls d' = calls d"
proof -
  define d' where "d' = d\<lparr>surbStore := (surbStore d)(j := None),
                           surbETAs := removeAll n (surbETAs d),
                           ctxHeap := (ctxHeap d)(p \<mapsto> c\<lparr>etaNode := None\<rparr>)\<rparr>"
  have nh: "nodeHeap d n = Some (CtxList [p])"
    using g by (auto simp: groupOf_def split: option.splits iface.splits)
  have run: "loadAndDeleteSURBCtx j d = Inr (Some p, d')"
    using s c en nh
    by (simp add: loadAndDeleteSURBCtx_def Let_def derefCtx_def bindE_def nodeValue_def
          asCtxList_def setEtaNode_def avlRemove_def d'_def)
  have f: "surbETAs d' = removeAll n (surbETAs d)" "nodeHeap d' = nodeHeap d"
    "surbStore d' = (surbStore d)(j := None)" "nodeTop d' = nodeTop d" "ctxTop d' = ctxTop d"
    "ctxHeap d' = (ctxHeap d)(p \<mapsto> c\<lparr>etaNode := None\<rparr>)" "calls d' = calls d"
    by (simp_all add: d'_def)
  from i s have pin: "p \<in> set (indexCtxs d)" and pid: "idOf d p = Some j" by (auto simp: inv_def)
  from inv_index_ctx[OF i pin] c en have nin: "n \<in> set (surbETAs d)" by auto
  have go: "groupOf d' = groupOf d" using f(2) by (rule groupOf_cong)
  have other: "q \<noteq> p" if "m \<in> set (surbETAs d)" "m \<noteq> n" "q \<in> set (groupOf d m)" for m q
  proof
    assume "q = p"
    with that(3) have "p \<in> set (groupOf d m)" by simp
    moreover have "p \<in> set (groupOf d n)" by (simp add: g)
    ultimately have "m = n" using inv_groups_disjoint[OF i that(1) nin] by simp
    with that(2) show False by simp
  qed
  have wfd: "wfNode d m" if "m \<in> set (surbETAs d)" for m using i that by (simp add: inv_def)
  have k': "keyOf d' m = keyOf d m" if m: "m \<in> set (surbETAs d)" "m \<noteq> n" for m
  proof -
    from wfNode_group[OF wfd[OF m(1)]] obtain q qs where q: "groupOf d m = q # qs" by blast
    then have "q \<in> set (groupOf d m)" by simp
    from other[OF m this] q show ?thesis by (simp add: keyOf_def go f(6))
  qed
  have nk': "nodeKey d' m = nodeKey d m" if m: "m \<in> set (removeAll n (surbETAs d))" for m
    using m by (simp add: nodeKey_def k')
  have ix: "set (indexCtxs d') = set (indexCtxs d) - {p}"
  proof (intro set_eqI iffI)
    fix q assume "q \<in> set (indexCtxs d')"
    then obtain m where m: "m \<in> set (surbETAs d)" "m \<noteq> n" "q \<in> set (groupOf d m)"
      by (auto simp: in_indexCtxs f(1) go)
    from other[OF this] m show "q \<in> set (indexCtxs d) - {p}" by (auto simp: in_indexCtxs)
  next
    fix q assume "q \<in> set (indexCtxs d) - {p}"
    then obtain m where m: "m \<in> set (surbETAs d)" "q \<in> set (groupOf d m)" and qp: "q \<noteq> p"
      by (auto simp: in_indexCtxs)
    with g have "m \<noteq> n" by auto
    with m show "q \<in> set (indexCtxs d')" by (auto simp: in_indexCtxs f(1) go)
  qed
  have wf': "wfNode d' m" if m: "m \<in> set (surbETAs d)" "m \<noteq> n" for m
  proof -
    from wfd[OF m(1)] obtain ps where ps: "nodeHeap d m = Some (CtxList ps)" "ps \<noteq> []"
      and mem: "\<forall>q \<in> set ps. \<exists>c. ctxHeap d q = Some c \<and> etaNode c = Some m \<and>
             surbStore d (id' c) = Some q \<and> keyOf d m = Some (eta c)"
      and lt: "m < nodeTop d"
      by (auto simp: wfNode_def)
    have gm: "groupOf d m = ps" using ps by (simp add: groupOf_def)
    have memo: "\<exists>c. ctxHeap d' q = Some c \<and> etaNode c = Some m \<and>
             surbStore d' (id' c) = Some q \<and> keyOf d' m = Some (eta c)" if q: "q \<in> set ps" for q
    proof -
      from mem q obtain cq where cq: "ctxHeap d q = Some cq" "etaNode cq = Some m"
        "surbStore d (id' cq) = Some q" "keyOf d m = Some (eta cq)" by blast
      have qp: "q \<noteq> p" using other[OF m] q gm by simp
      have "id' cq \<noteq> j" using cq(3) s qp by auto
      with cq qp k'[OF m] show ?thesis by (simp add: f)
    qed
    with ps lt show ?thesis by (auto simp: wfNode_def f(2,4))
  qed
  have sorted: "sorted_wrt (<) (map (nodeKey d') (surbETAs d'))"
  proof -
    have eq: "map (nodeKey d') (removeAll n (surbETAs d)) = map (nodeKey d) (removeAll n (surbETAs d))"
      by (rule map_cong[OF refl nk'])
    have "sorted_wrt (<) (map (nodeKey d) (surbETAs d))" using i by (simp add: inv_def)
    then have "sorted_wrt (<) (map (nodeKey d) (removeAll n (surbETAs d)))"
      unfolding sorted_wrt_map removeAll_filter_not_eq by (rule sorted_wrt_filter)
    then show ?thesis unfolding f(1) eq .
  qed
  have store: "q \<in> set (indexCtxs d') \<and> idOf d' q = Some l" if sl: "surbStore d' l = Some q" for l q
  proof -
    from sl have lj: "l \<noteq> j" and sd: "surbStore d l = Some q" by (auto simp: f(3) split: if_splits)
    from i sd have qi: "q \<in> set (indexCtxs d)" and qid: "idOf d q = Some l" by (auto simp: inv_def)
    have "q \<noteq> p" using qid pid lj by auto
    with qi qid show ?thesis by (simp add: ix idOf_def f(6))
  qed
  have bound: "\<forall>q. ctxHeap d' q \<noteq> None \<longrightarrow> q < ctxTop d'"
    using i c by (auto simp: inv_def f)
  have "distinct (surbETAs d')" using i by (simp add: inv_def f(1) distinct_removeAll)
  with wf' sorted store bound have "inv d'" unfolding inv_def by (auto simp: f(1))
  with run ix f show ?thesis by blast
qed

section \<open>Runs of operations\<close>

lemma slipFree_step:
  assumes "inv d" "slipFreeOp x d"
  shows "\<exists>d'. applyOp x d = Inr d' \<and> inv d'"
proof (cases x)
  case (Store i e k)
  with assms inv_store[of d i e k] show ?thesis by auto
next
  case (TakeById i)
  show ?thesis
  proof (cases "surbStore d i")
    case None
    with TakeById assms(1) show ?thesis by (simp add: take_miss bindE_def)
  next
    case (Some p)
    with TakeById assms(2) obtain c n where c: "ctxHeap d p = Some c" "etaNode c = Some n"
      "groupOf d n = [p]" by (auto split: option.splits)
    from inv_take_alone[OF assms(1) Some c] TakeById show ?thesis by (auto simp: bindE_def)
  qed
next
  case (Sweep now slack)
  with sweepSURBCtxs_spec[OF assms(1), of now slack] show ?thesis by (auto simp: bindE_def)
qed

text \<open>
  Runs in which ids are fresh when stored and \<^verbatim>\<open>takeById\<close> never hits a node shared by
  several contexts keep the invariant, and with it the bijection between the ids of the
  Token Store and the ids reachable through the Expiry Index.
\<close>

lemma slipFree_run:
  assumes "inv d" "slipFreeRun ops d"
  shows "\<exists>d'. applyOps ops d = Inr d' \<and> inv d' \<and> storeIds d' = indexIds d'"
  using assms
proof (induction ops arbitrary: d)
  case Nil
  then show ?case by (simp add: inv_bijection)
next
  case (Cons x xs)
  from Cons.prems have sf: "slipFreeOp x d" by simp
  from slipFree_step[OF Cons.prems(1) sf] obtain d1 where d1: "applyOp x d = Inr d1" "inv d1" by blast
  with Cons.prems(2) have "slipFreeRun xs d1" by simp
  from Cons.IH[OF d1(2) this] d1(1) show ?case by (simp add: bindE_def)
qed




section \<open>Claims about the sweep\<close>

lemma noWrap_zero: "noWrap 0 d"
  by (simp add: noWrap_def)

lemma sint_pred64:
  fixes T :: duration
  assumes "- (2 ^ 63) < sint T"
  shows "sint (T - 1) = sint T - 1"
proof -
  have "sint T < 2 ^ 63" using sint_lt[of T] by simp
  with assms have "signed_take_bit 63 (sint T - 1) = sint T - 1"
    by (intro signed_take_bit_int_eq_self) auto
  then show ?thesis by (simp add: sint_word_ariths)
qed

lemma swept_gone:
  assumes i: "inv d" and r: "sweepSURBCtxs now slack d = Inr (d', k)"
  shows "set (sweptCtxs now slack d) \<inter> set (indexCtxs d') = {}"
proof -
  from sweepSURBCtxs_spec[OF i, of now slack] r have
      t': "surbETAs d' = dropWhile (expired now slack d) (surbETAs d)"
    and nh': "nodeHeap d' = nodeHeap d" by auto
  have go: "groupOf d' = groupOf d" using nh' by (rule groupOf_cong)
  show ?thesis
  proof (rule ccontr)
    assume "set (sweptCtxs now slack d) \<inter> set (indexCtxs d') \<noteq> {}"
    then obtain p m m' where m: "m \<in> set (takeWhile (expired now slack d) (surbETAs d))"
      "p \<in> set (groupOf d m)" and m': "m' \<in> set (dropWhile (expired now slack d) (surbETAs d))"
      "p \<in> set (groupOf d m')"
      by (auto simp: sweptCtxs_def in_indexCtxs t' go)
    have min: "m \<in> set (surbETAs d)" using m(1) by (auto dest: set_takeWhileD)
    have m'in: "m' \<in> set (surbETAs d)" using m'(1) by (auto dest: set_dropWhileD)
    from inv_groups_disjoint[OF i min m'in m(2) m'(2)] have "m = m'" .
    with m(1) m'(1) swept_or_kept[OF i min] show False by simp
  qed
qed

lemma swept_subset: "set (sweptCtxs now slack d) \<subseteq> set (indexCtxs d)"
  by (auto simp: sweptCtxs_def in_indexCtxs dest!: set_takeWhileD)

text \<open>
  C4, as stated, fails when \<^verbatim>\<open>eta+slack\<close> overflows, in states that satisfy the invariants
  of the data model and whichever way the sum is read.  Read over the integers: with
  \<^verbatim>\<open>DecoySlack = 9223372036854\<close> (milliseconds) the sum of \<^verbatim>\<open>eta = 1ms\<close> and the slack wraps
  around to a negative duration, the test \<^verbatim>\<open>eta+slack > now\<close> fails and the sweep at
  \<^verbatim>\<open>now = 2ms\<close> removes a token whose expected arrival plus slack lies far in the future.
  Read in the arithmetic of the code: with a slack of 1ms and \<^verbatim>\<open>now = 1.5ms\<close> the sweep
  stops at the first node (\<^verbatim>\<open>eta = 1ms\<close>) and leaves the second token, whose \<^verbatim>\<open>eta\<close> is the
  greatest duration and whose wrapped sum \<^verbatim>\<open>eta+slack\<close> is not greater than \<open>now\<close>.
\<close>

theorem sweep_removes_unexpired_on_overflow:
  "inv (projr (applyOps [Store 1 1000000 []] (newDecoy [] 0))) \<and>
   surbStore (projr (applyOps [Store 1 1000000 []] (newDecoy [] 0))) 1 = Some 0 \<and>
   (case applyOps [Store 1 1000000 [], Sweep 2000000 (9223372036854 * Millisecond)] (newDecoy [] 0) of
      Inl e \<Rightarrow> False
    | Inr d \<Rightarrow> surbStore d 1 = None \<and> surbETAs d = []) \<and>
   sint (2000000 :: duration) < sint (1000000 :: duration) + sint (9223372036854 * Millisecond) \<and>
   inv (projr (applyOps [Store 1 1000000 [], Store 2 9223372036854775807 []] (newDecoy [] 0))) \<and>
   (case applyOps [Store 1 1000000 [], Store 2 9223372036854775807 [], Sweep 1500000 Millisecond]
           (newDecoy [] 0) of
      Inl e \<Rightarrow> False
    | Inr d \<Rightarrow> surbStore d 2 = Some 1 \<and> surbETAs d = [0, 1]) \<and>
   \<not> (1500000 :: duration) <s 9223372036854775807 + Millisecond"
proof -
  have "slipFreeRun [Store 1 1000000 []] (newDecoy [] 0)"
    by (simp add: manager_defs)
  from slipFree_run[OF inv_newDecoy this]
  have 1: "inv (projr (applyOps [Store 1 1000000 []] (newDecoy [] 0)))" by auto
  have "slipFreeRun [Store 1 1000000 [], Store 2 9223372036854775807 []] (newDecoy [] 0)"
    by (simp add: manager_defs)
  from slipFree_run[OF inv_newDecoy this]
  have 2: "inv (projr (applyOps [Store 1 1000000 [], Store 2 9223372036854775807 []] (newDecoy [] 0)))"
    by auto
  have 3: "surbStore (projr (applyOps [Store 1 1000000 []] (newDecoy [] 0))) 1 = Some 0 \<and>
   (case applyOps [Store 1 1000000 [], Sweep 2000000 (9223372036854 * Millisecond)] (newDecoy [] 0) of
      Inl e \<Rightarrow> False
    | Inr d \<Rightarrow> surbStore d 1 = None \<and> surbETAs d = []) \<and>
   sint (2000000 :: duration) < sint (1000000 :: duration) + sint (9223372036854 * Millisecond)"
    by (simp add: manager_defs Millisecond_def)
  have 4: "(case applyOps [Store 1 1000000 [], Store 2 9223372036854775807 [], Sweep 1500000 Millisecond]
           (newDecoy [] 0) of
      Inl e \<Rightarrow> False
    | Inr d \<Rightarrow> surbStore d 2 = Some 1 \<and> surbETAs d = [0, 1]) \<and>
   \<not> (1500000 :: duration) <s 9223372036854775807 + Millisecond"
    by (simp add: manager_defs Millisecond_def)
  from 1 2 3 4 show ?thesis by blast
qed

text \<open>
  C4 (amended).  In every state that satisfies the invariants of the data model, and for
  every \<open>now\<close> and \<open>slack\<close> such that \<^verbatim>\<open>eta+slack\<close> does not overflow for the contexts of the
  index, the sweep returns; it keeps, in the Token Store and in the index, every context
  with \<open>eta + slack > now\<close> and removes from both every context with \<open>eta + slack \<le> now\<close>;
  the contexts it counts are exactly those it removes, and no later sweep visits one of
  them again.  For \<open>slack = 0\<close> a context whose \<^verbatim>\<open>eta\<close> is not the least duration survives
  the sweep at \<open>eta - 1\<close> and is removed (and counted) by the sweep at \<open>eta\<close>.
\<close>

theorem sweep_removes_exactly_the_expired:
  assumes i: "inv d" and nw: "noWrap slack d"
  shows "\<exists>d' n. sweepSURBCtxs now slack d = Inr (d', n) \<and> inv d' \<and>
           (\<forall>p \<in> set (indexCtxs d). \<forall>c. ctxHeap d p = Some c \<longrightarrow>
              (if sint now < sint (eta c) + sint slack
               then p \<in> set (indexCtxs d') \<and> surbStore d' (id' c) = Some p
               else p \<notin> set (indexCtxs d') \<and> surbStore d' (id' c) = None)) \<and>
           indexCtxs d = sweptCtxs now slack d @ indexCtxs d' \<and>
           n = length (sweptCtxs now slack d) \<and>
           (\<forall>now2 slack2. set (sweptCtxs now2 slack2 d') \<inter> set (sweptCtxs now slack d) = {}) \<and>
           (\<forall>p \<in> set (indexCtxs d). \<forall>c. ctxHeap d p = Some c \<and> - (2 ^ 63) < sint (eta c) \<longrightarrow>
              (\<exists>d1 n1. sweepSURBCtxs (eta c - 1) 0 d = Inr (d1, n1) \<and>
                        p \<in> set (indexCtxs d1) \<and> surbStore d1 (id' c) = Some p) \<and>
              (\<exists>d2 n2. sweepSURBCtxs (eta c) 0 d = Inr (d2, n2) \<and>
                        p \<notin> set (indexCtxs d2) \<and> surbStore d2 (id' c) = None \<and>
                        p \<in> set (sweptCtxs (eta c) 0 d)))"
proof -
  from sweepSURBCtxs_spec[OF i, of now slack] obtain d' where
    r: "sweepSURBCtxs now slack d = Inr (d', length (sweptCtxs now slack d))" and i': "inv d'"
    by blast
  have a: "if sint now < sint (eta c) + sint slack
               then p \<in> set (indexCtxs d') \<and> surbStore d' (id' c) = Some p
               else p \<notin> set (indexCtxs d') \<and> surbStore d' (id' c) = None"
    if p: "p \<in> set (indexCtxs d)" and c: "ctxHeap d p = Some c" for p c
  proof -
    from nw p c have w: "sint (eta c + slack) = sint (eta c) + sint slack" by (auto simp: noWrap_def)
    show ?thesis
    proof (cases "sint now < sint (eta c) + sint slack")
      case True
      then have "now <s eta c + slack" by (simp add: word_sless_alt w)
      from sweep_keeps_unexpired[OF i r p c this] True show ?thesis by simp
    next
      case False
      then have "\<not> now <s eta c + slack" by (simp add: word_sless_alt w)
      from sweep_removes_expired[OF i nw r p c this] False show ?thesis by simp
    qed
  qed
  have b: "set (sweptCtxs now2 slack2 d') \<inter> set (sweptCtxs now slack d) = {}" for now2 slack2
    using swept_gone[OF i r] swept_subset[of now2 slack2 d'] by blast
  have sc: "(\<exists>d1 n1. sweepSURBCtxs (eta c - 1) 0 d = Inr (d1, n1) \<and>
                        p \<in> set (indexCtxs d1) \<and> surbStore d1 (id' c) = Some p) \<and>
              (\<exists>d2 n2. sweepSURBCtxs (eta c) 0 d = Inr (d2, n2) \<and>
                        p \<notin> set (indexCtxs d2) \<and> surbStore d2 (id' c) = None \<and>
                        p \<in> set (sweptCtxs (eta c) 0 d))"
    if p: "p \<in> set (indexCtxs d)" and c: "ctxHeap d p = Some c" and m: "- (2 ^ 63) < sint (eta c)"
    for p c
  proof -
    from sweepSURBCtxs_spec[OF i, of "eta c - 1" 0] obtain d1 n1 where
      r1: "sweepSURBCtxs (eta c - 1) 0 d = Inr (d1, n1)" by blast
    have "eta c - 1 <s eta c + 0" using sint_pred64[OF m] by (simp add: word_sless_alt)
    from sweep_keeps_unexpired[OF i r1 p c this] r1
    have 1: "\<exists>d1 n1. sweepSURBCtxs (eta c - 1) 0 d = Inr (d1, n1) \<and>
                        p \<in> set (indexCtxs d1) \<and> surbStore d1 (id' c) = Some p" by blast
    from sweepSURBCtxs_spec[OF i, of "eta c" 0] obtain d2 n2 where
      r2: "sweepSURBCtxs (eta c) 0 d = Inr (d2, n2)" by blast
    have "\<not> eta c <s eta c + 0" by (simp add: word_sless_alt)
    from sweep_removes_expired[OF i noWrap_zero r2 p c this] r2
    have 2: "\<exists>d2 n2. sweepSURBCtxs (eta c) 0 d = Inr (d2, n2) \<and>
                        p \<notin> set (indexCtxs d2) \<and> surbStore d2 (id' c) = None \<and>
                        p \<in> set (sweptCtxs (eta c) 0 d)" by blast
    from 1 2 show ?thesis by blast
  qed
  from sweep_index[OF i r] have ix: "indexCtxs d = sweptCtxs now slack d @ indexCtxs d'" by simp
  show ?thesis
    using r i' a b sc ix
    by (intro exI[of _ d'] exI[of _ "length (sweptCtxs now slack d)"]) blast
qed

lemma dOne_eq:
  "dOne = \<lparr>recipient = [], surbETAs = [0], surbStore = [1 \<mapsto> 0], surbIDBase = 0,
            nodeHeap = [0 \<mapsto> CtxList [0]],
            ctxHeap = [0 \<mapsto> \<lparr>id' = 1, eta = 100, sprpKey = [], etaNode = Some 0\<rparr>],
            nodeTop = 1, ctxTop = 1, packetsDropped = 0, ignoredPKIDocs = 0,
            pkiDocs = (\<lambda>_. 0), calls = []\<rparr>"
  by (simp add: dOne_def manager_defs)

lemma dTwo_eq:
  "dTwo = \<lparr>recipient = [], surbETAs = [0, 1], surbStore = [1 \<mapsto> 0, 2 \<mapsto> 1], surbIDBase = 0,
            nodeHeap = [0 \<mapsto> CtxList [0], 1 \<mapsto> CtxList [1]],
            ctxHeap = [0 \<mapsto> \<lparr>id' = 1, eta = 100, sprpKey = [], etaNode = Some 0\<rparr>,
                       1 \<mapsto> \<lparr>id' = 2, eta = 200, sprpKey = [], etaNode = Some 1\<rparr>],
            nodeTop = 2, ctxTop = 2, packetsDropped = 0, ignoredPKIDocs = 0,
            pkiDocs = (\<lambda>_. 0), calls = []\<rparr>"
  by (simp add: dTwo_def manager_defs)

lemma inv_dTwo: "inv dTwo"
proof -
  have "slipFreeRun [Store 1 100 [], Store 2 200 []] (newDecoy [] 0)"
    by (simp add: manager_defs)
  from slipFree_run[OF inv_newDecoy this] show ?thesis by (auto simp: dTwo_def)
qed

lemma noWrap_dTwo: "noWrap 5 dTwo"
  by (simp add: noWrap_def indexCtxs_def groupOf_def dTwo_eq)

theorem sweep_removes_exactly_the_expired_witness:
  "inv dTwo \<and> noWrap 5 dTwo \<and>
   (\<exists>d' n. sweepSURBCtxs 150 5 dTwo = Inr (d', n) \<and> inv d' \<and>
      (\<forall>p \<in> set (indexCtxs dTwo). \<forall>c. ctxHeap dTwo p = Some c \<longrightarrow>
         (if sint (150 :: duration) < sint (eta c) + sint (5 :: duration)
          then p \<in> set (indexCtxs d') \<and> surbStore d' (id' c) = Some p
          else p \<notin> set (indexCtxs d') \<and> surbStore d' (id' c) = None)) \<and>
      n = length (sweptCtxs 150 5 dTwo)) \<and>
   (case sweepSURBCtxs 150 5 dTwo of
      Inl e \<Rightarrow> False
    | Inr (d', n) \<Rightarrow> n = 1 \<and> surbStore d' 1 = None \<and> surbStore d' 2 = Some 1 \<and> surbETAs d' = [1]) \<and>
   sweepSURBCtxs 99 0 dOne = Inr (dOne, 0) \<and>
   (case sweepSURBCtxs 100 0 dOne of
      Inl e \<Rightarrow> False
    | Inr (d', n) \<Rightarrow> n = 1 \<and> surbStore d' 1 = None \<and> surbETAs d' = [])"
proof -
  from sweep_removes_exactly_the_expired[OF inv_dTwo noWrap_dTwo, of 150]
  have 1: "\<exists>d' n. sweepSURBCtxs 150 5 dTwo = Inr (d', n) \<and> inv d' \<and>
      (\<forall>p \<in> set (indexCtxs dTwo). \<forall>c. ctxHeap dTwo p = Some c \<longrightarrow>
         (if sint (150 :: duration) < sint (eta c) + sint (5 :: duration)
          then p \<in> set (indexCtxs d') \<and> surbStore d' (id' c) = Some p
          else p \<notin> set (indexCtxs d') \<and> surbStore d' (id' c) = None)) \<and>
      n = length (sweptCtxs 150 5 dTwo)"
    by blast
  have 2: "case sweepSURBCtxs 150 5 dTwo of
      Inl e \<Rightarrow> False
    | Inr (d', n) \<Rightarrow> n = 1 \<and> surbStore d' 1 = None \<and> surbStore d' 2 = Some 1 \<and> surbETAs d' = [1]"
    by (simp add: dTwo_eq manager_defs)
  have 3: "sweepSURBCtxs 99 0 dOne = Inr (dOne, 0)"
    by (simp add: dOne_eq manager_defs)
  have 4: "case sweepSURBCtxs 100 0 dOne of
      Inl e \<Rightarrow> False
    | Inr (d', n) \<Rightarrow> n = 1 \<and> surbStore d' 1 = None \<and> surbETAs d' = []"
    by (simp add: dOne_eq manager_defs)
  from inv_dTwo noWrap_dTwo 1 2 3 4 show ?thesis by blast
qed

lemma inv_cong:
  assumes "surbETAs d' = surbETAs d" "nodeHeap d' = nodeHeap d" "ctxHeap d' = ctxHeap d"
    "surbStore d' = surbStore d" "nodeTop d' = nodeTop d" "ctxTop d' = ctxTop d"
  shows "inv d' = inv d"
  by (simp only: inv_def wfNode_def indexCtxs_def assms groupOf_cong[OF assms(2)]
        keyOf_cong[OF assms(2,3)] idOf_cong[OF assms(3)] nodeKey_cong[OF assms(2,3)])

lemma indexCtxs_cong:
  assumes "surbETAs d' = surbETAs d" "nodeHeap d' = nodeHeap d"
  shows "indexCtxs d' = indexCtxs d"
  by (simp only: indexCtxs_def assms groupOf_cong[OF assms(2)])

section \<open>Cycles whose layered encryption fails\<close>

text \<open>
  When \<^verbatim>\<open>sphinx.NewPacket\<close> fails, the block of the attempt is the store of the new context
  followed by the two calls recorded so far; the dispatch is not reached.
\<close>

lemma buildAndDispatch_newPacketErr:
  assumes "newPacketErr a"
  shows "buildAndDispatch x a (makeSURBID d rnd) deltaT d =
           bindE (applyOp (Store rnd (monoNow a + deltaT) (surbKey a)) d) (\<lambda>d2.
             Inr (d2\<lparr>calls := calls d2 @
                    [CallStore (ctxTop d),
                     CallNewPacket (loopPayload (userForwardPayloadLength x) (surb a))]\<rparr>))"
  using assms
  by (simp add: buildAndDispatch_def surbID_suffix bindE_def newSurbCtx_eq Let_def
           split: sum.splits)

text \<open>
  A cycle of the builder keeps the invariants of the data model when its token id is not
  outstanding.
\<close>

lemma inv_sendLoopPacket:
  assumes i: "inv d" and fr: "surbStore d rnd = None" and r: "sendLoopPacket x w rnd d = Inr d'"
  shows "inv d'"
  using sendLoopPacket_outcome[OF r]
proof
  assume "d' = d" with i show ?thesis by simp
next
  assume "\<exists>j<maxAttempts. \<exists>d2 n.
       (\<forall>m<j. missed x (w m)) \<and> \<not> fwdErr (w j) \<and> \<not> revErr (w j) \<and> timingOK x (w j) \<and>
       storeSURBCtx (ctxTop d)
         (snd (newSurbCtx rnd (monoNow (w j) + timeSub (revThen (w j)) (timeNow (w j)))
                 (surbKey (w j)) d)) = Inr d2 \<and>
       surbStore d2 rnd = Some (ctxTop d) \<and>
       ctxHeap d2 (ctxTop d) =
         Some \<lparr>id' = rnd, eta = monoNow (w j) + timeSub (revThen (w j)) (timeNow (w j)),
               sprpKey = surbKey (w j), etaNode = Some n\<rparr> \<and>
       calls d2 = calls d \<and>
       d' = d2\<lparr>calls := calls d @
               [CallStore (ctxTop d),
                CallNewPacket (loopPayload (userForwardPayloadLength x) (surb (w j)))] @
               (if newPacketErr (w j) \<or> pktAllocErr (w j) then []
                else [CallDispatch \<lparr>raw = newPacketRaw (w j), nextNodeHop = hd (fwdPath (w j)),
                                     dispatchAt = dispatchNow (w j)\<rparr>])\<rparr>"
  then obtain j d2 cs where
    st: "storeSURBCtx (ctxTop d)
         (snd (newSurbCtx rnd (monoNow (w j) + timeSub (revThen (w j)) (timeNow (w j)))
                 (surbKey (w j)) d)) = Inr d2"
    and d': "d' = d2\<lparr>calls := cs\<rparr>"
    by blast
  have "applyOp (Store rnd (monoNow (w j) + timeSub (revThen (w j)) (timeNow (w j)))
                   (surbKey (w j))) d = Inr d2"
    using st by (simp add: newSurbCtx_eq)
  with inv_store[OF i fr, of "monoNow (w j) + timeSub (revThen (w j)) (timeNow (w j))" "surbKey (w j)"]
  have i2: "inv d2" by auto
  have "inv d' = inv d2" by (rule inv_cong) (simp_all add: d')
  with i2 show ?thesis by simp
qed

lemma inv_sendDecoyPacket:
  assumes i: "inv d" and fr: "surbStore d (rngUint64 bw) = None"
    and r: "sendDecoyPacket x bw ent d = Inr d'"
  shows "inv d'"
proof (cases "d' = d")
  case True with i show ?thesis by simp
next
  case False
  with r have "sendLoopPacket x (attemptsW bw) (rngUint64 bw) d = Inr d'"
    by (auto simp: sendDecoyPacket_def bindE_def split: if_splits sum.splits option.splits prod.splits)
  from inv_sendLoopPacket[OF i fr this] show ?thesis .
qed

text \<open>
  C3 (amended).  Let attempt \<open>j\<close> be reached (all attempts before it found their paths
  and missed the timing budget).  If the forward or the reverse path selection fails in
  attempt \<open>j\<close>, the cycle ends in the state it started from: no token context is recorded
  and no packet is dispatched.  If the paths and the timing are fine and the layered
  encryption fails, the cycle is the store of the new context through \<^verbatim>\<open>storeSURBCtx\<close>
  followed by the failed \<^verbatim>\<open>sphinx.NewPacket\<close>: whenever it returns, these two are its only
  calls (no packet is dispatched) and the token stays recorded, that is, the Token Store
  of the resulting state maps the token id to the new context, which carries the id,
  the \<^verbatim>\<open>eta\<close> and the key of the attempt.  From a state that satisfies the invariants of the
  data model, with a token id that is not outstanding, the cycle does return, and the
  context is in the Expiry Index as well.
\<close>

theorem path_or_encryption_failure_abandons_cycle:
  assumes "j < maxAttempts" and "\<forall>m<j. missed x (w m)"
  shows "(fwdErr (w j) \<or> revErr (w j) \<longrightarrow> sendLoopPacket x w rnd d = Inr d) \<and>
         (\<not> fwdErr (w j) \<and> \<not> revErr (w j) \<and> timingOK x (w j) \<and> newPacketErr (w j) \<longrightarrow>
            sendLoopPacket x w rnd d =
              bindE (applyOp (Store rnd (monoNow (w j) + timeSub (revThen (w j)) (timeNow (w j)))
                                (surbKey (w j))) d) (\<lambda>d2.
                Inr (d2\<lparr>calls := calls d2 @
                       [CallStore (ctxTop d),
                        CallNewPacket (loopPayload (userForwardPayloadLength x) (surb (w j)))]\<rparr>)) \<and>
            (\<forall>d'. sendLoopPacket x w rnd d = Inr d' \<longrightarrow>
               newCalls d d' =
                 [CallStore (ctxTop d),
                  CallNewPacket (loopPayload (userForwardPayloadLength x) (surb (w j)))] \<and>
               surbStore d' rnd = Some (ctxTop d) \<and>
               (\<exists>n. ctxHeap d' (ctxTop d) =
                  Some \<lparr>id' = rnd,
                        eta = monoNow (w j) + timeSub (revThen (w j)) (timeNow (w j)),
                        sprpKey = surbKey (w j), etaNode = Some n\<rparr>)) \<and>
            (inv d \<and> surbStore d rnd = None \<longrightarrow>
               (\<exists>d'. sendLoopPacket x w rnd d = Inr d' \<and> ctxTop d \<in> set (indexCtxs d'))))"
proof -
  let ?E = "monoNow (w j) + timeSub (revThen (w j)) (timeNow (w j))"
  let ?cs = "[CallStore (ctxTop d),
              CallNewPacket (loopPayload (userForwardPayloadLength x) (surb (w j)))]"
  have p: "sendLoopPacket x w rnd d = Inr d" if "fwdErr (w j) \<or> revErr (w j)"
  proof -
    from that have "\<not> missed x (w j)" by (auto simp: missed_def)
    with assms that show ?thesis by (simp add: sendLoopPacket_decided)
  qed
  have e: "sendLoopPacket x w rnd d =
             bindE (applyOp (Store rnd ?E (surbKey (w j))) d) (\<lambda>d2.
               Inr (d2\<lparr>calls := calls d2 @ ?cs\<rparr>))"
    if a: "\<not> fwdErr (w j) \<and> \<not> revErr (w j) \<and> timingOK x (w j) \<and> newPacketErr (w j)"
  proof -
    from a have nm: "\<not> missed x (w j)" by (auto simp: missed_def)
    have eq: "sendLoopPacket x w rnd d = buildAndDispatch x (w j) (makeSURBID d rnd)
                   (timeSub (revThen (w j)) (timeNow (w j))) d"
      using assms nm a by (simp add: sendLoopPacket_decided)
    from a have ne: "newPacketErr (w j)" by simp
    show ?thesis unfolding eq by (rule buildAndDispatch_newPacketErr[OF ne])
  qed
  have r: "newCalls d d' = ?cs \<and> surbStore d' rnd = Some (ctxTop d) \<and>
           (\<exists>n. ctxHeap d' (ctxTop d) =
              Some \<lparr>id' = rnd, eta = ?E, sprpKey = surbKey (w j), etaNode = Some n\<rparr>)"
    if a: "\<not> fwdErr (w j) \<and> \<not> revErr (w j) \<and> timingOK x (w j) \<and> newPacketErr (w j)"
      and run: "sendLoopPacket x w rnd d = Inr d'" for d'
  proof -
    from a have nm: "\<not> missed x (w j)" by (auto simp: missed_def)
    have eq: "sendLoopPacket x w rnd d = buildAndDispatch x (w j) (makeSURBID d rnd)
                   (timeSub (revThen (w j)) (timeNow (w j))) d"
      using assms nm a by (simp add: sendLoopPacket_decided)
    with run have b: "buildAndDispatch x (w j) (makeSURBID d rnd)
                   (timeSub (revThen (w j)) (timeNow (w j))) d = Inr d'" by simp
    from buildAndDispatch_result[OF b] a obtain d2 n where
      s2: "surbStore d2 rnd = Some (ctxTop d)"
      and c2: "ctxHeap d2 (ctxTop d) =
                Some \<lparr>id' = rnd, eta = ?E, sprpKey = surbKey (w j), etaNode = Some n\<rparr>"
      and d': "d' = d2\<lparr>calls := calls d @ ?cs\<rparr>"
      by auto
    have 1: "newCalls d d' = ?cs" by (rule newCalls_append) (simp add: d')
    have 2: "surbStore d' rnd = Some (ctxTop d)" using s2 by (simp add: d')
    have 3: "\<exists>n. ctxHeap d' (ctxTop d) =
                Some \<lparr>id' = rnd, eta = ?E, sprpKey = surbKey (w j), etaNode = Some n\<rparr>"
      using c2 by (simp add: d')
    from 1 2 3 show ?thesis by blast
  qed
  have t: "\<exists>d'. sendLoopPacket x w rnd d = Inr d' \<and> ctxTop d \<in> set (indexCtxs d')"
    if a: "\<not> fwdErr (w j) \<and> \<not> revErr (w j) \<and> timingOK x (w j) \<and> newPacketErr (w j)"
      and i: "inv d \<and> surbStore d rnd = None"
  proof -
    from i have i1: "inv d" and fr: "surbStore d rnd = None" by simp_all
    from inv_store[OF i1 fr, of ?E "surbKey (w j)"] obtain d2 where
      st: "applyOp (Store rnd ?E (surbKey (w j))) d = Inr d2"
      and ix2: "set (indexCtxs d2) = insert (ctxTop d) (set (indexCtxs d))"
      by blast
    let ?d' = "d2\<lparr>calls := calls d2 @ ?cs\<rparr>"
    have run: "sendLoopPacket x w rnd d = Inr ?d'"
      unfolding e[OF a] st by (simp add: bindE_def)
    have "indexCtxs ?d' = indexCtxs d2" by (rule indexCtxs_cong) simp_all
    with ix2 have "ctxTop d \<in> set (indexCtxs ?d')" by simp
    with run show ?thesis by blast
  qed
  show ?thesis using p e r t by blast
qed

theorem path_or_encryption_failure_abandons_cycle_witness:
  "(0 :: nat) < maxAttempts \<and>
   fwdErr ((\<lambda>_. a0\<lparr>fwdErr := True\<rparr>) 0) \<and>
   sendLoopPacket x0 (\<lambda>_. a0\<lparr>fwdErr := True\<rparr>) 7 (newDecoy [] 1) = Inr (newDecoy [] 1) \<and>
   timingOK x0 ((\<lambda>_. a0\<lparr>newPacketErr := True\<rparr>) 0) \<and>
   newPacketErr ((\<lambda>_. a0\<lparr>newPacketErr := True\<rparr>) 0) \<and>
   inv (newDecoy [] 1) \<and> surbStore (newDecoy [] 1) 7 = None \<and>
   (case sendLoopPacket x0 (\<lambda>_. a0\<lparr>newPacketErr := True\<rparr>) 7 (newDecoy [] 1) of
      Inl e \<Rightarrow> False
    | Inr d' \<Rightarrow>
        newCalls (newDecoy [] 1) d' = [CallStore 0, CallNewPacket [1, 0, 170, 0, 0, 0]] \<and>
        surbStore d' 7 = Some 0 \<and>
        ctxHeap d' 0 = Some \<lparr>id' = 7, eta = 120, sprpKey = [5], etaNode = Some 0\<rparr> \<and>
        0 \<in> set (indexCtxs d'))"
  using path_or_encryption_failure_abandons_cycle[of 0 x0 "\<lambda>_. a0\<lparr>fwdErr := True\<rparr>" 7 "newDecoy [] 1"]
        path_or_encryption_failure_abandons_cycle[of 0 x0 "\<lambda>_. a0\<lparr>newPacketErr := True\<rparr>" 7 "newDecoy [] 1"]
        inv_newDecoy[of "[]" 1]
  by (simp add: builder_defs manager_defs timingOK_def indexCtxs_def groupOf_def)



text \<open>
  The defect of \<^verbatim>\<open>loadAndDeleteSURBCtx\<close> (line 439, see C1) reaches such a token as well.
  When a second context with the same \<^verbatim>\<open>eta\<close> is stored and then taken by its id, the
  node that the two share loses its group: the token of the failed cycle is still in the
  Token Store but no longer in the Expiry Index, and both \<^verbatim>\<open>takeById\<close> of its id and the
  sweep panic in the type assertion.  The statement of C10 below leaves such runs out.
\<close>

lemma shared_node_take_loses_failed_token:
  "(case sendLoopPacket x0 (\<lambda>_. a0\<lparr>newPacketErr := True\<rparr>) 7 (newDecoy [] 1) of
      Inl e \<Rightarrow> False
    | Inr d \<Rightarrow>
        surbStore d 7 = Some 0 \<and> indexCtxs d = [0] \<and>
        (case applyOps [Store 8 120 [], TakeById 8] d of
           Inl e \<Rightarrow> False
         | Inr d' \<Rightarrow>
             surbStore d' 7 = Some 0 \<and> surbStore d' 8 = None \<and> indexCtxs d' = [] \<and>
             loadAndDeleteSURBCtx 7 d' = Inl BadTypeAssertion \<and>
             sweepSURBCtxs 200 0 d' = Inl BadTypeAssertion))"
  by (simp add: builder_defs manager_defs indexCtxs_def groupOf_def)



section \<open>The timer of the scheduler\<close>

text \<open>What a sweep does in a state that satisfies the invariants, absent overflow.\<close>

lemma noWrap_cong:
  assumes "surbETAs d' = surbETAs d" "nodeHeap d' = nodeHeap d" "ctxHeap d' = ctxHeap d"
  shows "noWrap slack d' = noWrap slack d"
  by (simp only: noWrap_def indexCtxs_cong[OF assms(1,2)] assms(3))

lemma sweep_effect:
  assumes i: "inv d" and nw: "noWrap slack d" and r: "sweepSURBCtxs now slack d = Inr (d', n)"
  shows "inv d' \<and> n = length (sweptCtxs now slack d) \<and>
         (\<forall>p \<in> set (indexCtxs d). \<forall>c. ctxHeap d p = Some c \<longrightarrow>
            (if sint now < sint (eta c) + sint slack
             then p \<in> set (indexCtxs d') \<and> surbStore d' (id' c) = Some p
             else p \<notin> set (indexCtxs d') \<and> surbStore d' (id' c) = None))"
proof -
  from sweepSURBCtxs_spec[OF i, of now slack] r have i': "inv d'"
    and n: "n = length (sweptCtxs now slack d)" by auto
  have a: "if sint now < sint (eta c) + sint slack
               then p \<in> set (indexCtxs d') \<and> surbStore d' (id' c) = Some p
               else p \<notin> set (indexCtxs d') \<and> surbStore d' (id' c) = None"
    if p: "p \<in> set (indexCtxs d)" and c: "ctxHeap d p = Some c" for p c
  proof -
    from nw p c have w: "sint (eta c + slack) = sint (eta c) + sint slack" by (auto simp: noWrap_def)
    show ?thesis
    proof (cases "sint now < sint (eta c) + sint slack")
      case True
      then have "now <s eta c + slack" by (simp add: word_sless_alt w)
      from sweep_keeps_unexpired[OF i r p c this] True show ?thesis by simp
    next
      case False
      then have "\<not> now <s eta c + slack" by (simp add: word_sless_alt w)
      from sweep_removes_expired[OF i nw r p c this] False show ?thesis by simp
    qed
  qed
  from i' n a show ?thesis by blast
qed

text \<open>
  C7, as stated, fails when the number of milliseconds does not fit into a duration.
  The snapshot below has the greatest \<^verbatim>\<open>uint64\<close> as \<^verbatim>\<open>LambdaMMaxDelay\<close> and the generator
  draws 9223372036855 for its rate: the draw is not clamped, the product
  \<^verbatim>\<open>time.Duration(wakeMsec) * time.Millisecond\<close> wraps around, and \<^verbatim>\<open>wakeInterval\<close> becomes the
  negative duration -9223372036854551616 (nanoseconds), not 9223372036855 milliseconds.
\<close>

theorem wake_interval_negative_on_overflow:
  "(case workerIteration x0 iwLong TimerC (\<lparr>wakeInterval = 0, docCache = Some entWide\<rparr>, newDecoy [] 1) of
      Inr (Some (l', d')) \<Rightarrow>
        sint (wakeInterval l') = - 9223372036854551616 \<and>
        newCalls (newDecoy [] 1) d' = [CallSendDecoy, CallSweep]
    | _ \<Rightarrow> False) \<and>
   \<not> snd (pkiNowSched iwLong) \<and> epoch entWide = fst (pkiNowSched iwLong) \<and>
   min (randExp iwLong (lambdaM (doc entWide))) (lambdaMMaxDelay (doc entWide)) = 9223372036855 \<and>
   int (unat (9223372036855 :: uint64)) * 1000000 = 9223372036855000000"
  by (simp add: workerIteration_def schedule_def iwLong_def entWide_def sendDecoyPacket_def
        LayerProvider_def bindE_def Let_def newDecoy_def sweepSURBCtxs_def Millisecond_def
        newCalls_def)

text \<open>
  C7 (amended).  When the timer fires: if \<^verbatim>\<open>PKI().Now()\<close> fails or no cached snapshot is of
  the current epoch, the iteration leaves the state as it is (the Packet Builder is not
  called) and sets \<^verbatim>\<open>wakeInterval\<close> to \<^verbatim>\<open>math.MaxInt64\<close>, the greatest duration.  Otherwise
  the iteration is one call of \<^verbatim>\<open>sendDecoyPacket\<close> followed by the sweep, and \<^verbatim>\<open>wakeInterval\<close>
  becomes \<open>m\<close> times \<^verbatim>\<open>time.Millisecond\<close> in the arithmetic of \<^verbatim>\<open>int64\<close>, where \<open>m\<close> is the
  smaller of the exponential draw for the rate \<^verbatim>\<open>LambdaM\<close> of the snapshot and its
  \<^verbatim>\<open>LambdaMMaxDelay\<close>: exactly \<open>m\<close> milliseconds whenever \<open>m * 1000000 < 2^63\<close>.  When the
  iteration returns, its calls are \<^verbatim>\<open>sendDecoyPacket\<close> once, the calls of that builder run,
  and \<^verbatim>\<open>sweepSURBCtxs\<close> last, and its state is the one the sweep returns for the state the
  builder left.  If the state before the iteration satisfies the invariants of the data
  model, the token id drawn for the cycle is not outstanding and no sum \<^verbatim>\<open>eta+slack\<close>
  overflows, the sweep removes from the Token Store and the Expiry Index exactly the
  contexts with \<open>eta + slack \<le> now\<close>, counts them, and keeps the invariants.
\<close>

theorem timer_fire_suspends_or_builds_once_then_sweeps:
  "workerIteration x iw TimerC (l, d) =
     (if snd (pkiNowSched iw) \<or> docCache l = None \<or>
         map_option epoch (docCache l) \<noteq> Some (fst (pkiNowSched iw))
      then Inr (Some (l\<lparr>wakeInterval := maxDuration\<rparr>, d))
      else
        bindE (sendDecoyPacket x (builder iw) (the (docCache l))
                 (d\<lparr>calls := calls d @ [CallSendDecoy]\<rparr>)) (\<lambda>d1.
        bindE (sweepSURBCtxs (sweepNow iw) (cfgDecoySlack iw * Millisecond)
                 (d1\<lparr>calls := calls d1 @ [CallSweep]\<rparr>)) (\<lambda>(d2, swept).
          Inr (Some (l\<lparr>wakeInterval :=
                          min (randExp iw (lambdaM (doc (the (docCache l)))))
                              (lambdaMMaxDelay (doc (the (docCache l)))) * Millisecond\<rparr>,
                     d2))))) \<and>
   (unat (min (randExp iw (lambdaM (doc (the (docCache l)))))
              (lambdaMMaxDelay (doc (the (docCache l))))) * 1000000 < 2 ^ 63 \<longrightarrow>
      sint (min (randExp iw (lambdaM (doc (the (docCache l)))))
                (lambdaMMaxDelay (doc (the (docCache l)))) * Millisecond) =
        int (unat (min (randExp iw (lambdaM (doc (the (docCache l)))))
                       (lambdaMMaxDelay (doc (the (docCache l)))))) * 1000000) \<and>
   (\<forall>t :: duration. t \<le>s maxDuration) \<and>
   (\<not> (snd (pkiNowSched iw) \<or> docCache l = None \<or>
         map_option epoch (docCache l) \<noteq> Some (fst (pkiNowSched iw))) \<and>
    workerIteration x iw TimerC (l, d) = Inr (Some (l', d')) \<longrightarrow>
      (\<exists>cs d1 n.
         sendDecoyPacket x (builder iw) (the (docCache l))
           (d\<lparr>calls := calls d @ [CallSendDecoy]\<rparr>) = Inr d1 \<and>
         sweepSURBCtxs (sweepNow iw) (cfgDecoySlack iw * Millisecond)
           (d1\<lparr>calls := calls d1 @ [CallSweep]\<rparr>) = Inr (d', n) \<and>
         newCalls d d' = CallSendDecoy # cs @ [CallSweep] \<and>
         CallSendDecoy \<notin> set cs \<and> CallSweep \<notin> set cs \<and>
         (inv d \<and> surbStore d (rngUint64 (builder iw)) = None \<and>
          noWrap (cfgDecoySlack iw * Millisecond) d1 \<longrightarrow>
            inv d1 \<and> inv d' \<and>
            n = length (sweptCtxs (sweepNow iw) (cfgDecoySlack iw * Millisecond) d1) \<and>
            (\<forall>p \<in> set (indexCtxs d1). \<forall>c. ctxHeap d1 p = Some c \<longrightarrow>
               (if sint (sweepNow iw) < sint (eta c) + sint (cfgDecoySlack iw * Millisecond)
                then p \<in> set (indexCtxs d') \<and> surbStore d' (id' c) = Some p
                else p \<notin> set (indexCtxs d') \<and> surbStore d' (id' c) = None)))))"
proof -
  let ?m = "min (randExp iw (lambdaM (doc (the (docCache l)))))
                (lambdaMMaxDelay (doc (the (docCache l))))"
  let ?now = "sweepNow iw" and ?slack = "cfgDecoySlack iw * Millisecond"
  let ?susp = "snd (pkiNowSched iw) \<or> docCache l = None \<or>
         map_option epoch (docCache l) \<noteq> Some (fst (pkiNowSched iw))"
  have A: "workerIteration x iw TimerC (l, d) =
     (if ?susp
      then Inr (Some (l\<lparr>wakeInterval := maxDuration\<rparr>, d))
      else
        bindE (sendDecoyPacket x (builder iw) (the (docCache l))
                 (d\<lparr>calls := calls d @ [CallSendDecoy]\<rparr>)) (\<lambda>d1.
        bindE (sweepSURBCtxs ?now ?slack
                 (d1\<lparr>calls := calls d1 @ [CallSweep]\<rparr>)) (\<lambda>(d2, swept).
          Inr (Some (l\<lparr>wakeInterval := ?m * Millisecond\<rparr>, d2)))))"
    by (cases "pkiNowSched iw")
       (auto simp: workerIteration_def schedule_def bindE_def Let_def min_def
             split: sum.splits option.splits prod.splits)
  have B: "sint (?m * Millisecond) = int (unat ?m) * 1000000"
    if "unat ?m * 1000000 < 2 ^ 63"
    using that unfolding Millisecond_def by (rule milliseconds_exact)
  have C: "t \<le>s maxDuration" for t :: duration
  proof -
    have "sint t < 2 ^ 63" using sint_lt[of t] by simp
    then show ?thesis
      by (simp add: word_sle_eq maxDuration_def sint_uint word_size signed_take_bit_int_eq_self)
  qed
  have D: "\<exists>cs d1 n.
         sendDecoyPacket x (builder iw) (the (docCache l))
           (d\<lparr>calls := calls d @ [CallSendDecoy]\<rparr>) = Inr d1 \<and>
         sweepSURBCtxs ?now ?slack (d1\<lparr>calls := calls d1 @ [CallSweep]\<rparr>) = Inr (d', n) \<and>
         newCalls d d' = CallSendDecoy # cs @ [CallSweep] \<and>
         CallSendDecoy \<notin> set cs \<and> CallSweep \<notin> set cs \<and>
         (inv d \<and> surbStore d (rngUint64 (builder iw)) = None \<and> noWrap ?slack d1 \<longrightarrow>
            inv d1 \<and> inv d' \<and> n = length (sweptCtxs ?now ?slack d1) \<and>
            (\<forall>p \<in> set (indexCtxs d1). \<forall>c. ctxHeap d1 p = Some c \<longrightarrow>
               (if sint ?now < sint (eta c) + sint ?slack
                then p \<in> set (indexCtxs d') \<and> surbStore d' (id' c) = Some p
                else p \<notin> set (indexCtxs d') \<and> surbStore d' (id' c) = None)))"
    if a: "\<not> ?susp \<and> workerIteration x iw TimerC (l, d) = Inr (Some (l', d'))"
  proof -
    from a obtain ent where ent: "docCache l = Some ent" by auto
    let ?d0 = "d\<lparr>calls := calls d @ [CallSendDecoy]\<rparr>"
    from a have ns: "\<not> ?susp" by (rule conjunct1)
    from a have w: "workerIteration x iw TimerC (l, d) = Inr (Some (l', d'))" by (rule conjunct2)
    have run: "bindE (sendDecoyPacket x (builder iw) (the (docCache l)) ?d0) (\<lambda>d1.
        bindE (sweepSURBCtxs ?now ?slack
                 (d1\<lparr>calls := calls d1 @ [CallSweep]\<rparr>)) (\<lambda>(d2, swept).
          Inr (Some (l\<lparr>wakeInterval := ?m * Millisecond\<rparr>, d2)))) = Inr (Some (l', d'))"
      using w unfolding A if_not_P[OF ns] .
    then obtain d1 n where
        b: "sendDecoyPacket x (builder iw) (the (docCache l)) ?d0 = Inr d1"
      and sw: "sweepSURBCtxs ?now ?slack (d1\<lparr>calls := calls d1 @ [CallSweep]\<rparr>) = Inr (d', n)"
      by (auto simp: bindE_def split: sum.splits prod.splits)
    let ?d1s = "d1\<lparr>calls := calls d1 @ [CallSweep]\<rparr>"
    from sendDecoyPacket_calls[OF b] obtain cs where
      cs: "calls d1 = calls d @ [CallSendDecoy] @ cs" "CallSendDecoy \<notin> set cs" "CallSweep \<notin> set cs"
      by auto
    from sweepSURBCtxs_calls[OF sw] cs
    have "calls d' = calls d @ (CallSendDecoy # cs @ [CallSweep])" by simp
    then have nc: "newCalls d d' = CallSendDecoy # cs @ [CallSweep]" by (rule newCalls_append)
    have E: "inv d1 \<and> inv d' \<and> n = length (sweptCtxs ?now ?slack d1) \<and>
            (\<forall>p \<in> set (indexCtxs d1). \<forall>c. ctxHeap d1 p = Some c \<longrightarrow>
               (if sint ?now < sint (eta c) + sint ?slack
                then p \<in> set (indexCtxs d') \<and> surbStore d' (id' c) = Some p
                else p \<notin> set (indexCtxs d') \<and> surbStore d' (id' c) = None))"
      if h: "inv d \<and> surbStore d (rngUint64 (builder iw)) = None \<and> noWrap ?slack d1"
    proof -
      have "inv ?d0 = inv d" by (rule inv_cong) simp_all
      with h have i0: "inv ?d0" by simp
      from h have fr0: "surbStore ?d0 (rngUint64 (builder iw)) = None" by simp
      from inv_sendDecoyPacket[OF i0 fr0 b] have i1: "inv d1" .
      have "inv ?d1s = inv d1" by (rule inv_cong) simp_all
      with i1 have i1s: "inv ?d1s" by simp
      have "noWrap ?slack ?d1s = noWrap ?slack d1" by (rule noWrap_cong) simp_all
      with h have nw: "noWrap ?slack ?d1s" by simp
      have ix: "indexCtxs ?d1s = indexCtxs d1" by (rule indexCtxs_cong) simp_all
      have nh: "nodeHeap ?d1s = nodeHeap d1" and ch: "ctxHeap ?d1s = ctxHeap d1"
        and se: "surbETAs ?d1s = surbETAs d1" by simp_all
      have sc: "sweptCtxs ?now ?slack ?d1s = sweptCtxs ?now ?slack d1"
        by (simp only: sweptCtxs_def expired_cong[OF nh ch] groupOf_cong[OF nh] se)
      from sweep_effect[OF i1s nw sw] i1 show ?thesis
        unfolding ix sc ch by blast
    qed
    from b sw nc cs(2,3) E show ?thesis by blast
  qed
  from A B C D show ?thesis by blast
qed

text \<open>
  The iteration on a state that holds one token with \<^verbatim>\<open>eta = 100\<close>: the builder stores a
  second token (\<^verbatim>\<open>eta = 120\<close>) and dispatches its packet; the sweep at \<open>now = 2000110\<close>
  with a slack of 2ms removes the first token and keeps the second.
\<close>

lemma inv_dOne: "inv dOne"
proof -
  have "slipFreeRun [Store 1 100 []] (newDecoy [] 0)"
    by (simp add: manager_defs)
  from slipFree_run[OF inv_newDecoy this] show ?thesis by (auto simp: dOne_def)
qed

lemma timer_run_dOne:
  "\<exists>l' d'. workerIteration x0 (iw0\<lparr>sweepNow := 2000110\<rparr>) TimerC
              (\<lparr>wakeInterval = 0, docCache = Some ent0\<rparr>, dOne) = Inr (Some (l', d')) \<and>
     wakeInterval l' = 30 * Millisecond \<and> sint (wakeInterval l') = 30000000 \<and>
     calls d' =
       [CallSendDecoy, CallStore 1, CallNewPacket [1, 0, 170, 0, 0, 0],
        CallDispatch \<lparr>raw = [9], nextNodeHop = [1], dispatchAt = 101\<rparr>, CallSweep] \<and>
     surbStore d' 1 = None \<and> surbStore d' 7 = Some 1 \<and> surbETAs d' = [1] \<and>
     nodeHeap d' 1 = Some (CtxList [1])"
  by (simp add: workerIteration_def schedule_def iw0_def ent0_def sendDecoyPacket_def
        LayerProvider_def LoopCapability_def builder_defs manager_defs Millisecond_def dOne_eq)

lemma builder_run_dOne:
  "\<exists>d1. sendDecoyPacket x0 (builder iw0) ent0 (dOne\<lparr>calls := calls dOne @ [CallSendDecoy]\<rparr>) = Inr d1 \<and>
     surbETAs d1 = [0, 1] \<and> nodeHeap d1 = [0 \<mapsto> CtxList [0], 1 \<mapsto> CtxList [1]] \<and>
     ctxHeap d1 = [0 \<mapsto> \<lparr>id' = 1, eta = 100, sprpKey = [], etaNode = Some 0\<rparr>,
                   1 \<mapsto> \<lparr>id' = 7, eta = 120, sprpKey = [5], etaNode = Some 1\<rparr>]"
  by (simp add: iw0_def ent0_def sendDecoyPacket_def
        LayerProvider_def LoopCapability_def builder_defs manager_defs dOne_eq)

theorem timer_fire_suspends_or_builds_once_then_sweeps_witness:
  "inv dOne \<and> surbStore dOne (rngUint64 (builder iw0)) = None \<and>
   unat (min (randExp iw0 (lambdaM (doc ent0))) (lambdaMMaxDelay (doc ent0))) * 1000000 < 2 ^ 63 \<and>
   (\<exists>l' d'. workerIteration x0 (iw0\<lparr>sweepNow := 2000110\<rparr>) TimerC
              (\<lparr>wakeInterval = 0, docCache = Some ent0\<rparr>, dOne) = Inr (Some (l', d')) \<and>
      wakeInterval l' = 30 * Millisecond \<and> sint (wakeInterval l') = 30000000 \<and>
      newCalls dOne d' =
        [CallSendDecoy, CallStore 1, CallNewPacket [1, 0, 170, 0, 0, 0],
         CallDispatch \<lparr>raw = [9], nextNodeHop = [1], dispatchAt = 101\<rparr>, CallSweep] \<and>
      surbStore d' 1 = None \<and> surbStore d' 7 = Some 1 \<and> indexCtxs d' = [1] \<and> inv d') \<and>
   workerIteration x0 (iw0\<lparr>pkiNowSched := (6, False)\<rparr>) TimerC
       (\<lparr>wakeInterval = 0, docCache = Some ent0\<rparr>, newDecoy [] 1) =
     Inr (Some (\<lparr>wakeInterval = maxDuration, docCache = Some ent0\<rparr>, newDecoy [] 1))"
proof -
  let ?iw = "iw0\<lparr>sweepNow := 2000110\<rparr>"
  let ?l = "\<lparr>wakeInterval = 0, docCache = Some ent0\<rparr>"
  from timer_run_dOne obtain l' d' where
    r: "workerIteration x0 ?iw TimerC (?l, dOne) = Inr (Some (l', d'))"
    and f: "wakeInterval l' = 30 * Millisecond" "sint (wakeInterval l') = 30000000"
      "calls d' =
       [CallSendDecoy, CallStore 1, CallNewPacket [1, 0, 170, 0, 0, 0],
        CallDispatch \<lparr>raw = [9], nextNodeHop = [1], dispatchAt = 101\<rparr>, CallSweep]"
      "surbStore d' 1 = None" "surbStore d' 7 = Some 1"
    and g: "surbETAs d' = [1]" "nodeHeap d' 1 = Some (CtxList [1])"
    by blast
  from builder_run_dOne obtain d1 where
    b: "sendDecoyPacket x0 (builder iw0) ent0 (dOne\<lparr>calls := calls dOne @ [CallSendDecoy]\<rparr>) = Inr d1"
    and h: "surbETAs d1 = [0, 1]" "nodeHeap d1 = [0 \<mapsto> CtxList [0], 1 \<mapsto> CtxList [1]]"
      "ctxHeap d1 = [0 \<mapsto> \<lparr>id' = 1, eta = 100, sprpKey = [], etaNode = Some 0\<rparr>,
                    1 \<mapsto> \<lparr>id' = 7, eta = 120, sprpKey = [5], etaNode = Some 1\<rparr>]"
    by blast
  have nw: "noWrap (cfgDecoySlack ?iw * Millisecond) d1"
    by (simp add: noWrap_def indexCtxs_def groupOf_def h iw0_def Millisecond_def)
  have fr: "surbStore dOne (rngUint64 (builder iw0)) = None"
    by (simp add: dOne_eq iw0_def)
  have ns: "\<not> (snd (pkiNowSched ?iw) \<or> docCache ?l = None \<or>
         map_option epoch (docCache ?l) \<noteq> Some (fst (pkiNowSched ?iw)))"
    by (simp add: iw0_def ent0_def)
  have fit: "unat (min (randExp iw0 (lambdaM (doc ent0))) (lambdaMMaxDelay (doc ent0))) * 1000000 < 2 ^ 63"
    by (simp add: iw0_def ent0_def)
  note T = timer_fire_suspends_or_builds_once_then_sweeps[of x0 ?iw ?l dOne l' d']
  from T ns r obtain d1' where
    b': "sendDecoyPacket x0 (builder ?iw) (the (docCache ?l))
           (dOne\<lparr>calls := calls dOne @ [CallSendDecoy]\<rparr>) = Inr d1'"
    and e: "inv dOne \<and> surbStore dOne (rngUint64 (builder ?iw)) = None \<and>
          noWrap (cfgDecoySlack ?iw * Millisecond) d1' \<longrightarrow> inv d1' \<and> inv d'"
    by blast
  from b b' have "d1' = d1" by simp
  with e inv_dOne fr nw have i': "inv d'" by simp
  have nc: "newCalls dOne d' =
        [CallSendDecoy, CallStore 1, CallNewPacket [1, 0, 170, 0, 0, 0],
         CallDispatch \<lparr>raw = [9], nextNodeHop = [1], dispatchAt = 101\<rparr>, CallSweep]"
    by (simp add: newCalls_def f dOne_eq)
  have ix: "indexCtxs d' = [1]" using g by (simp add: indexCtxs_def groupOf_def)
  have s: "workerIteration x0 (iw0\<lparr>pkiNowSched := (6, False)\<rparr>) TimerC
       (\<lparr>wakeInterval = 0, docCache = Some ent0\<rparr>, newDecoy [] 1) =
     Inr (Some (\<lparr>wakeInterval = maxDuration, docCache = Some ent0\<rparr>, newDecoy [] 1))"
    using timer_fire_suspends_or_builds_once_then_sweeps[of x0 "iw0\<lparr>pkiNowSched := (6, False)\<rparr>"
          "\<lparr>wakeInterval = 0, docCache = Some ent0\<rparr>" "newDecoy [] 1"]
    by (simp add: iw0_def ent0_def)
  from inv_dOne fr fit r f(1,2,4,5) nc ix i' s show ?thesis by blast
qed

end
